theory Spec2Isabelle
  imports Main "HOL-Library.Word"
begin

unbundle bit_operations_syntax

section \<open>The heap\<close>

text \<open>
  A pointer is an address; the address 0 is the C null pointer. The list node
  (\<^verbatim>\<open>struct list_head\<close>) is embedded in the element (\<^verbatim>\<open>element_t\<close>), so an element and
  its node are one address here and \<^verbatim>\<open>container_of\<close> / \<^verbatim>\<open>list_entry\<close> is the identity.
  The heap holds the two link fields of every node, the \<^verbatim>\<open>value\<close> field of every
  element (a pointer to a string block), the contents of the string blocks, and the set
  of blocks that are currently allocated.
\<close>

type_synonym addr = nat

record heap =
  nxt :: "addr \<Rightarrow> addr"
  prv :: "addr \<Rightarrow> addr"
  e_value :: "addr \<Rightarrow> addr"
  str :: "addr \<Rightarrow> string"
  alloc :: "addr set"

text \<open>The text of the element at a node: \<^verbatim>\<open>list_entry(p, element_t, list)->value\<close>.\<close>

definition val :: "heap \<Rightarrow> addr \<Rightarrow> string" where
  "val h p = str h (e_value h p)"

text \<open>\<^verbatim>\<open>strcmp\<close> of the C library: bytes compared as unsigned values, the shorter string
  first when one is a prefix of the other.\<close>

fun strcmp :: "string \<Rightarrow> string \<Rightarrow> int" where
  "strcmp [] [] = 0"
| "strcmp [] (y # ys) = - int (of_char y)"
| "strcmp (x # xs) [] = int (of_char x)"
| "strcmp (x # xs) (y # ys) =
     (if x = y then strcmp xs ys else int (of_char x) - int (of_char y))"

text \<open>\<^verbatim>\<open>free\<close> gives a block back; \<^verbatim>\<open>malloc\<close> and \<^verbatim>\<open>strdup\<close> take the pointer the allocator
  returns as an argument (0 when the allocation fails), since the allocator is outside
  this file.\<close>

definition free :: "addr \<Rightarrow> heap \<Rightarrow> heap" where
  "free p h = h\<lparr>alloc := alloc h - {p}\<rparr>"

definition malloc :: "addr \<Rightarrow> heap \<Rightarrow> heap" where
  "malloc p h = (if p = 0 then h else h\<lparr>alloc := insert p (alloc h)\<rparr>)"

definition strdup :: "string \<Rightarrow> addr \<Rightarrow> heap \<Rightarrow> heap" where
  "strdup s p h =
     (if p = 0 then h else h\<lparr>str := (str h)(p := s), alloc := insert p (alloc h)\<rparr>)"

section \<open>The link primitive\<close>

text \<open>Modelled from the spec: the header \<^verbatim>\<open>list.h\<close> is not among the sources. The spec
  names \<^verbatim>\<open>init(sentinel)\<close>, which makes the sentinel link to itself.\<close>

definition INIT_LIST_HEAD :: "addr \<Rightarrow> heap \<Rightarrow> heap" where
  "INIT_LIST_HEAD head h =
     h\<lparr>nxt := (nxt h)(head := head), prv := (prv h)(head := head)\<rparr>"

text \<open>Modelled from the spec: \<^verbatim>\<open>is_empty(sentinel)\<close>, the sentinel links only to itself.\<close>

definition list_empty :: "addr \<Rightarrow> heap \<Rightarrow> bool" where
  "list_empty head h = (nxt h head = head)"

text \<open>Modelled from the spec: \<^verbatim>\<open>is_singular(sentinel)\<close>, exactly one element.\<close>

definition list_is_singular :: "addr \<Rightarrow> heap \<Rightarrow> bool" where
  "list_is_singular head h = (\<not> list_empty head h \<and> prv h head = nxt h head)"

text \<open>Modelled from the spec: \<^verbatim>\<open>insert_after(node, new)\<close>; \<^verbatim>\<open>list_add(node, head)\<close> links
  \<^verbatim>\<open>node\<close> right after \<^verbatim>\<open>head\<close>.\<close>

definition list_add :: "addr \<Rightarrow> addr \<Rightarrow> heap \<Rightarrow> heap" where
  "list_add node head h =
     (let next = nxt h head in
      h\<lparr>nxt := (nxt h)(node := next, head := node),
        prv := (prv h)(next := node, node := head)\<rparr>)"

text \<open>Modelled from the spec: \<^verbatim>\<open>insert_before(node, new)\<close>; \<^verbatim>\<open>list_add_tail(node, head)\<close>
  links \<^verbatim>\<open>node\<close> right before \<^verbatim>\<open>head\<close>.\<close>

definition list_add_tail :: "addr \<Rightarrow> addr \<Rightarrow> heap \<Rightarrow> heap" where
  "list_add_tail node head h =
     (let prev = prv h head in
      h\<lparr>nxt := (nxt h)(prev := node, node := head),
        prv := (prv h)(node := prev, head := node)\<rparr>)"

text \<open>Modelled from the spec: \<^verbatim>\<open>unlink(node)\<close>; the neighbours of \<^verbatim>\<open>node\<close> are linked to
  each other, the fields of \<^verbatim>\<open>node\<close> itself are left as they are.\<close>

definition list_del :: "addr \<Rightarrow> heap \<Rightarrow> heap" where
  "list_del node h =
     (let next = nxt h node; prev = prv h node in
      h\<lparr>nxt := (nxt h)(prev := next), prv := (prv h)(next := prev)\<rparr>)"

text \<open>Modelled from the spec: unlink, then make the node a list of its own.\<close>

definition list_del_init :: "addr \<Rightarrow> heap \<Rightarrow> heap" where
  "list_del_init node h = INIT_LIST_HEAD node (list_del node h)"

text \<open>Modelled from the spec: unlink, then insert after / before \<^verbatim>\<open>head\<close>.\<close>

definition list_move :: "addr \<Rightarrow> addr \<Rightarrow> heap \<Rightarrow> heap" where
  "list_move node head h = list_add node head (list_del node h)"

definition list_move_tail :: "addr \<Rightarrow> addr \<Rightarrow> heap \<Rightarrow> heap" where
  "list_move_tail node head h = list_add_tail node head (list_del node h)"

text \<open>Modelled from the spec: \<^verbatim>\<open>splice(src_sentinel, dest_position)\<close> relinks four
  pointers and moves all nodes of \<^verbatim>\<open>list\<close> right after \<^verbatim>\<open>head\<close>
  (\<^verbatim>\<open>list_splice\<close>) or right before it (\<^verbatim>\<open>list_splice_tail\<close>); nothing happens when
  \<^verbatim>\<open>list\<close> is empty.\<close>

definition list_splice :: "addr \<Rightarrow> addr \<Rightarrow> heap \<Rightarrow> heap" where
  "list_splice list head h =
     (let head_first = nxt h head; list_first = nxt h list; list_last = prv h list in
      if list_empty list h then h
      else h\<lparr>nxt := (nxt h)(head := list_first, list_last := head_first),
             prv := (prv h)(list_first := head, head_first := list_last)\<rparr>)"

definition list_splice_tail :: "addr \<Rightarrow> addr \<Rightarrow> heap \<Rightarrow> heap" where
  "list_splice_tail list head h =
     (let head_last = prv h head; list_first = nxt h list; list_last = prv h list in
      if list_empty list h then h
      else h\<lparr>nxt := (nxt h)(list_last := head, head_last := list_first),
             prv := (prv h)(head := list_last, list_first := head_last)\<rparr>)"

section \<open>Queue operations\<close>

text \<open>\<^verbatim>\<open>q_new\<close>: \<^verbatim>\<open>q\<close> is what \<^verbatim>\<open>malloc\<close> returned.\<close>

definition q_new :: "addr \<Rightarrow> heap \<Rightarrow> addr \<times> heap" where
  "q_new q h =
     (let h = malloc q h in
      if q \<noteq> 0 then (q, INIT_LIST_HEAD q h) else (q, h))"

definition q_release_element :: "addr \<Rightarrow> heap \<Rightarrow> heap" where
  "q_release_element e h = free e (free (e_value h e) h)"

text \<open>\<^verbatim>\<open>q_insert_head(head, s)\<close>: \<^verbatim>\<open>e\<close> is what \<^verbatim>\<open>malloc\<close> returned and \<^verbatim>\<open>v\<close> what
  \<^verbatim>\<open>strdup\<close> returned. The two labels of the source are the two error branches.\<close>

definition err_ele :: "addr \<Rightarrow> heap \<Rightarrow> bool \<times> heap" where
  "err_ele e h = (False, if e \<noteq> 0 then free e h else h)"

definition err_str :: "addr \<Rightarrow> heap \<Rightarrow> bool \<times> heap" where
  "err_str e h = err_ele e (if e_value h e \<noteq> 0 then free (e_value h e) h else h)"

definition q_insert_head :: "addr \<Rightarrow> string \<Rightarrow> addr \<Rightarrow> addr \<Rightarrow> heap \<Rightarrow> bool \<times> heap" where
  "q_insert_head head s e v h =
     (if head = 0 then (False, h)
      else let h = malloc e h in
        if e = 0 then err_ele e h
        else let h = strdup s v h; h = h\<lparr>e_value := (e_value h)(e := v)\<rparr> in
          if e_value h e = 0 then err_str e h
          else (True, list_add e head h))"

definition q_insert_tail :: "addr \<Rightarrow> string \<Rightarrow> addr \<Rightarrow> addr \<Rightarrow> heap \<Rightarrow> bool \<times> heap" where
  "q_insert_tail head s e v h =
     (if head = 0 then (False, h)
      else let h = malloc e h in
        if e = 0 then err_ele e h
        else let h = strdup s v h; h = h\<lparr>e_value := (e_value h)(e := v)\<rparr> in
          if e_value h e = 0 then err_str e h
          else (True, list_add_tail e head h))"

text \<open>A write outside the caller's buffer, or outside one of the two local arrays of the
  sort, has no defined result in C: it is an error of the model, and the call ends with
  it.\<close>

datatype error = BufferOutOfBounds | StackOutOfBounds | ListsOutOfBounds

text \<open>The buffer \<^verbatim>\<open>sp\<close> points to is an array of bytes; its length is the number of bytes
  the caller has provided. \<^verbatim>\<open>strncpy(dst, src, n)\<close> of the C library writes exactly \<^verbatim>\<open>n\<close>
  bytes, the bytes of \<^verbatim>\<open>src\<close> and then zero bytes, so it stays inside the array only
  when \<^verbatim>\<open>n\<close> is at most its length.\<close>

definition strncpy :: "char list \<Rightarrow> string \<Rightarrow> nat \<Rightarrow> error + char list" where
  "strncpy dst src n =
     (if n \<le> length dst
      then Inr (take n (src @ replicate (n - length src) (CHR 0x00)) @ drop n dst)
      else Inl BufferOutOfBounds)"

text \<open>The assignment \<^verbatim>\<open>sp[i] = c\<close>.\<close>

definition store_char :: "char list \<Rightarrow> nat \<Rightarrow> char \<Rightarrow> error + char list" where
  "store_char sp i c = (if i < length sp then Inr (sp[i := c]) else Inl BufferOutOfBounds)"

text \<open>The copy into the caller's buffer: \<^verbatim>\<open>bufsize\<close> is a \<^verbatim>\<open>size_t\<close>, an unsigned word,
  and \<^verbatim>\<open>bufsize - 1\<close> is computed in it.\<close>

definition copy_len :: "'w::len word \<Rightarrow> nat" where
  "copy_len bufsize = unat (bufsize - 1)"

definition copy_out :: "char list \<Rightarrow> string \<Rightarrow> 'w::len word \<Rightarrow> error + char list" where
  "copy_out sp s bufsize =
     (case strncpy sp s (copy_len bufsize) of
        Inl err \<Rightarrow> Inl err
      | Inr sp \<Rightarrow> store_char sp (copy_len bufsize) (CHR 0x00))"

text \<open>\<^verbatim>\<open>q_remove_head(head, sp, bufsize)\<close>: \<^verbatim>\<open>sp\<close> is \<open>None\<close> for a null buffer. The result
  is the element returned (0 for NULL), the buffer and the heap. The copy comes before
  the unlinking, so a call that leaves the buffer does not unlink.\<close>

definition q_remove_head ::
  "addr \<Rightarrow> char list option \<Rightarrow> 'w::len word \<Rightarrow> heap \<Rightarrow> error + addr \<times> char list option \<times> heap" where
  "q_remove_head head sp bufsize h =
     (if head = 0 \<or> list_empty head h then Inr (0, sp, h)
      else let e = nxt h head in
        case (case sp of None \<Rightarrow> Inr None
              | Some b \<Rightarrow> (case copy_out b (val h e) bufsize of
                             Inl err \<Rightarrow> Inl err | Inr b \<Rightarrow> Inr (Some b))) of
          Inl err \<Rightarrow> Inl err
        | Inr sp \<Rightarrow> Inr (e, sp, list_del (nxt h head) h))"

definition q_remove_tail ::
  "addr \<Rightarrow> char list option \<Rightarrow> 'w::len word \<Rightarrow> heap \<Rightarrow> error + addr \<times> char list option \<times> heap" where
  "q_remove_tail head sp bufsize h =
     (if head = 0 \<or> list_empty head h then Inr (0, sp, h)
      else let e = prv h head in
        case (case sp of None \<Rightarrow> Inr None
              | Some b \<Rightarrow> (case copy_out b (val h e) bufsize of
                             Inl err \<Rightarrow> Inl err | Inr b \<Rightarrow> Inr (Some b))) of
          Inl err \<Rightarrow> Inl err
        | Inr sp \<Rightarrow> Inr (e, sp, list_del (prv h head) h))"

section \<open>Structural transforms\<close>

text \<open>The loops follow pointers in the heap, so nothing in their shape says that they
  end: each is a partial function, \<open>None\<close> when it does not return.\<close>

partial_function (option) mid_loop :: "addr \<Rightarrow> addr \<Rightarrow> heap \<Rightarrow> addr option" where
  "mid_loop f b h =
     (if f = b \<or> f = prv h b then Some f else mid_loop (nxt h f) (prv h b) h)"

definition q_delete_mid :: "addr \<Rightarrow> heap \<Rightarrow> (bool \<times> heap) option" where
  "q_delete_mid head h =
     (if head = 0 \<or> list_empty head h then Some (False, h)
      else case mid_loop (nxt h head) (prv h head) h of
             None \<Rightarrow> None
           | Some f \<Rightarrow> Some (True, q_release_element f (list_del f h)))"

text \<open>The loop of \<^verbatim>\<open>q_delete_dup\<close>; \<^verbatim>\<open>b\<close> is assigned at the top of the body.\<close>

partial_function (option) dup_loop ::
  "addr \<Rightarrow> addr \<Rightarrow> addr \<Rightarrow> bool \<Rightarrow> heap \<Rightarrow> (addr \<times> bool \<times> heap) option" where
  "dup_loop head l b del_cur h =
     (if nxt h l \<noteq> head then
        (let b = l; c = nxt h l in
         if strcmp (val h b) (val h c) = 0
         then dup_loop head l b True (q_release_element c (list_del c h))
         else (let l = nxt h l in
               if del_cur
               then dup_loop head l b False (q_release_element b (list_del b h))
               else dup_loop head l b del_cur h))
      else Some (b, del_cur, h))"

text \<open>\<^verbatim>\<open>b\<close> is not initialised before the loop; it is read after the loop only when
  \<^verbatim>\<open>del_cur\<close> is set, which the body sets after assigning \<^verbatim>\<open>b\<close>.\<close>

definition q_delete_dup :: "addr \<Rightarrow> heap \<Rightarrow> (bool \<times> heap) option" where
  "q_delete_dup head h =
     (if head = 0 then Some (False, h)
      else case dup_loop head (nxt h head) 0 False h of
             None \<Rightarrow> None
           | Some (b, del_cur, h) \<Rightarrow>
               Some (True, if del_cur then q_release_element b (list_del b h) else h))"

partial_function (option) swap_loop :: "addr \<Rightarrow> addr \<Rightarrow> heap \<Rightarrow> heap option" where
  "swap_loop head n h =
     (if n \<noteq> head then
        (if nxt h n = head then Some h
         else (let fwn = nxt h n; h = list_add n fwn (list_del n h) in
               swap_loop head (nxt h n) h))
      else Some h)"


text \<open>The \<^verbatim>\<open>do ... while (n != head)\<close> of \<^verbatim>\<open>q_reverse\<close>.\<close>

partial_function (option) reverse_loop :: "addr \<Rightarrow> addr \<Rightarrow> heap \<Rightarrow> heap option" where
  "reverse_loop head n h =
     (let t = nxt h n;
          h = h\<lparr>nxt := (nxt h)(n := prv h n)\<rparr>;
          h = h\<lparr>prv := (prv h)(n := t)\<rparr>;
          n = t
      in if n \<noteq> head then reverse_loop head n h else Some h)"

definition q_reverse :: "addr \<Rightarrow> heap \<Rightarrow> heap option" where
  "q_reverse head h =
     (if head = 0 \<or> list_empty head h then Some h else reverse_loop head head h)"

section \<open>Sort engine\<close>

text \<open>\<^verbatim>\<open>mergeTwoLists(L1, L2)\<close>. The variable \<^verbatim>\<open>ptr\<close> points either to the local \<^verbatim>\<open>head\<close>
  or to the \<^verbatim>\<open>next\<close> field of a node: it is 0 for the first and the node's address for
  the second. \<^verbatim>\<open>store_ptr\<close> is the assignment \<^verbatim>\<open>*ptr = p\<close>, on the pair of the local
  \<^verbatim>\<open>head\<close> and the heap.\<close>

definition store_ptr :: "addr \<Rightarrow> addr \<Rightarrow> addr \<times> heap \<Rightarrow> addr \<times> heap" where
  "store_ptr ptr p hh =
     (case hh of (head, h) \<Rightarrow>
        if ptr = 0 then (p, h) else (head, h\<lparr>nxt := (nxt h)(ptr := p)\<rparr>))"

partial_function (option) merge_loop ::
  "addr \<Rightarrow> addr \<Rightarrow> addr \<Rightarrow> addr \<times> heap \<Rightarrow> (addr \<times> heap) option" where
  "merge_loop L1 L2 ptr hh =
     (if L1 \<noteq> 0 \<and> L2 \<noteq> 0 then
        (if strcmp (val (snd hh) L1) (val (snd hh) L2) \<le> 0
         then merge_loop (nxt (snd hh) L1) L2 L1 (store_ptr ptr L1 hh)
         else merge_loop L1 (nxt (snd hh) L2) L2 (store_ptr ptr L2 hh))
      else Some (store_ptr ptr (L1 OR L2) hh))"

definition mergeTwoLists :: "addr \<Rightarrow> addr \<Rightarrow> heap \<Rightarrow> (addr \<times> heap) option" where
  "mergeTwoLists L1 L2 h = merge_loop L1 L2 0 (0, h)"

text \<open>The two local arrays of \<^verbatim>\<open>list_mergesort\<close> have 1000 and 100000 slots.\<close>

definition STACK_SLOTS :: int where
  "STACK_SLOTS = 1000"

definition LISTS_SLOTS :: int where
  "LISTS_SLOTS = 100000"

text \<open>The inner \<^verbatim>\<open>while\<close> of the active branch: \<^verbatim>\<open>slow\<close> runs to the end of a run of
  equal values.\<close>

partial_function (option) skip_equal :: "addr \<Rightarrow> heap \<Rightarrow> addr option" where
  "skip_equal slow h =
     (if nxt h slow \<noteq> 0 \<and> strcmp (val h slow) (val h (nxt h slow)) = 0
      then skip_equal (nxt h slow) h
      else Some slow)"

text \<open>The \<^verbatim>\<open>for\<close> loop over \<^verbatim>\<open>fast\<close> (the branch after \<^verbatim>\<open>#else\<close>; the branch under
  \<^verbatim>\<open>#if 0\<close> is not compiled). The result is \<^verbatim>\<open>slow\<close> when the loop is left.\<close>

partial_function (option) find_split :: "addr \<Rightarrow> addr \<Rightarrow> heap \<Rightarrow> addr option" where
  "find_split slow fast h =
     (if fast \<noteq> 0 \<and> nxt h fast \<noteq> 0 then
        (if strcmp (val h slow) (val h (nxt h slow)) = 0
         then skip_equal slow h
         else find_split (nxt h slow) (nxt h (nxt h fast)) h)
      else Some slow)"

text \<open>The local variables of \<^verbatim>\<open>list_mergesort\<close>; the index \<^verbatim>\<open>top\<close> is \<open>top'\<close>
  and the array \<^verbatim>\<open>lists\<close> is \<open>lists'\<close>.\<close>

record sort_state =
  top' :: int
  listsSize :: int
  stack :: "nat \<Rightarrow> addr"
  lists' :: "nat \<Rightarrow> addr"
  hp :: heap

text \<open>\<^verbatim>\<open>stack[++top] = p\<close>.\<close>

definition push :: "addr \<Rightarrow> sort_state \<Rightarrow> error + sort_state" where
  "push p s =
     (let t = top' s + 1 in
      if 0 \<le> t \<and> t < STACK_SLOTS
      then Inr (s\<lparr>top' := t, stack := (stack s)(nat t := p)\<rparr>)
      else Inl StackOutOfBounds)"

text \<open>\<^verbatim>\<open>lists[listsSize++] = stack[top--]\<close>.\<close>

definition move_to_lists :: "sort_state \<Rightarrow> error + sort_state" where
  "move_to_lists s =
     (if \<not> (0 \<le> top' s \<and> top' s < STACK_SLOTS) then Inl StackOutOfBounds
      else if \<not> (0 \<le> listsSize s \<and> listsSize s < LISTS_SLOTS) then Inl ListsOutOfBounds
      else Inr (s\<lparr>lists' := (lists' s)(nat (listsSize s) := stack s (nat (top' s))),
                  listsSize := listsSize s + 1, top' := top' s - 1\<rparr>))"

text \<open>The first \<^verbatim>\<open>while (top >= 0)\<close> of \<^verbatim>\<open>list_mergesort\<close>.\<close>

partial_function (option) split_loop :: "sort_state \<Rightarrow> (error + sort_state) option" where
  "split_loop s =
     (if top' s \<ge> 0 then
        (if \<not> top' s < STACK_SLOTS then Some (Inl StackOutOfBounds)
         else
           (let left = stack s (nat (top' s)); s = s\<lparr>top' := top' s - 1\<rparr> in
            if left \<noteq> 0 then
              (case find_split left (nxt (hp s) left) (hp s) of
                 None \<Rightarrow> None
               | Some slow \<Rightarrow>
                   (let right = nxt (hp s) slow;
                        s = s\<lparr>hp := (hp s)\<lparr>nxt := (nxt (hp s))(slow := 0)\<rparr>\<rparr>
                    in case push left s of
                         Inl e \<Rightarrow> Some (Inl e)
                       | Inr s \<Rightarrow>
                           (case push right s of
                              Inl e \<Rightarrow> Some (Inl e)
                            | Inr s \<Rightarrow> split_loop s)))
            else
              (case move_to_lists s of
                 Inl e \<Rightarrow> Some (Inl e)
               | Inr s \<Rightarrow> split_loop s)))
      else Some (Inr s))"

text \<open>One pass \<^verbatim>\<open>for (i = 0, j = listsSize - 1; i < j; i++, j--)\<close> over the runs.\<close>

partial_function (option) merge_pass ::
  "int \<Rightarrow> int \<Rightarrow> (nat \<Rightarrow> addr) \<Rightarrow> heap \<Rightarrow> ((nat \<Rightarrow> addr) \<times> heap) option" where
  "merge_pass i j ls h =
     (if i < j then
        (case mergeTwoLists (ls (nat i)) (ls (nat j)) h of
           None \<Rightarrow> None
         | Some (m, h) \<Rightarrow> merge_pass (i + 1) (j - 1) (ls(nat i := m)) h)
      else Some (ls, h))"

text \<open>\<^verbatim>\<open>while (listsSize > 1)\<close>; the division of two positive C integers is \<open>div\<close>.\<close>

partial_function (option) merge_runs ::
  "int \<Rightarrow> (nat \<Rightarrow> addr) \<Rightarrow> heap \<Rightarrow> ((nat \<Rightarrow> addr) \<times> heap) option" where
  "merge_runs n ls h =
     (if n > 1 then
        (case merge_pass 0 (n - 1) ls h of
           None \<Rightarrow> None
         | Some (ls, h) \<Rightarrow> merge_runs ((n + 1) div 2) ls h)
      else Some (ls, h))"

text \<open>The forward pass that rebuilds every \<^verbatim>\<open>prev\<close>; the result is the last node and
  the heap.\<close>

partial_function (option) relink_loop :: "addr \<Rightarrow> heap \<Rightarrow> (addr \<times> heap) option" where
  "relink_loop i h =
     (if nxt h i \<noteq> 0
      then relink_loop (nxt h i) (h\<lparr>prv := (prv h)(nxt h i := i)\<rparr>)
      else Some (i, h))"

definition list_mergesort :: "addr \<Rightarrow> heap \<Rightarrow> (error + heap) option" where
  "list_mergesort head h =
     (if list_empty head h \<or> list_is_singular head h then Some (Inr h)
      else
        (let h = h\<lparr>nxt := (nxt h)(prv h head := 0)\<rparr>;
             s = \<lparr>top' = 0, listsSize = 0, stack = (\<lambda>_. 0)(0 := nxt h head),
                  lists' = (\<lambda>_. 0), hp = h\<rparr>
         in case split_loop s of
              None \<Rightarrow> None
            | Some (Inl e) \<Rightarrow> Some (Inl e)
            | Some (Inr s) \<Rightarrow>
                (case merge_runs (listsSize s) (lists' s) (hp s) of
                   None \<Rightarrow> None
                 | Some (ls, h) \<Rightarrow>
                     (let h = h\<lparr>nxt := (nxt h)(head := ls 0)\<rparr> in
                      case relink_loop head h of
                        None \<Rightarrow> None
                      | Some (i, h) \<Rightarrow>
                          Some (Inr (h\<lparr>prv := (prv h)(head := i),
                                       nxt := (nxt h)(i := head)\<rparr>))))))"

definition q_sort :: "addr \<Rightarrow> heap \<Rightarrow> (error + heap) option" where
  "q_sort head h =
     (if head = 0 \<or> list_empty head h then Some (Inr h) else list_mergesort head h)"

section \<open>Well-formed lists and the lists of the examples\<close>

text \<open>\<open>links h cs\<close>: each node of \<open>cs\<close> has the next one as its \<^verbatim>\<open>next\<close> and is the
  \<^verbatim>\<open>prev\<close> of the next one. \<open>dll h head as\<close>: the sentinel \<open>head\<close> and the nodes \<open>as\<close>, in
  the order of the forward traversal, are a circular doubly linked list of the heap.\<close>

definition links :: "heap \<Rightarrow> addr list \<Rightarrow> bool" where
  "links h cs = successively (\<lambda>a b. nxt h a = b \<and> prv h b = a) cs"

definition dll :: "heap \<Rightarrow> addr \<Rightarrow> addr list \<Rightarrow> bool" where
  "dll h head as = (distinct (head # as) \<and> links h (head # as @ [head]))"

text \<open>A queue: a circular list whose sentinel, elements and strings are allocated
  blocks, all different, none of them at the null address. Each element owns its
  string.\<close>

definition blocks :: "heap \<Rightarrow> addr \<Rightarrow> addr list \<Rightarrow> addr list" where
  "blocks h head as = head # as @ map (e_value h) as"

definition queue :: "heap \<Rightarrow> addr \<Rightarrow> addr list \<Rightarrow> bool" where
  "queue h head as =
     (dll h head as \<and> distinct (blocks h head as) \<and> 0 \<notin> set (blocks h head as) \<and>
      set (blocks h head as) \<subseteq> alloc h)"

text \<open>Non-decreasing under \<^verbatim>\<open>strcmp\<close>.\<close>

definition ascending :: "string list \<Rightarrow> bool" where
  "ascending xs = sorted_wrt (\<lambda>x y. strcmp x y \<le> 0) xs"

text \<open>A heap with nothing allocated, and the queue built from it by \<^verbatim>\<open>q_new\<close> and one
  \<^verbatim>\<open>q_insert_tail\<close> for each string: the sentinel is the block 1, the elements are the
  blocks 2, 4, 6, ... and their strings the blocks 3, 5, 7, ...\<close>

definition heap0 :: heap where
  "heap0 = \<lparr>nxt = (\<lambda>_. 0), prv = (\<lambda>_. 0), e_value = (\<lambda>_. 0), str = (\<lambda>_. []), alloc = {}\<rparr>"

fun fill :: "addr \<Rightarrow> addr \<Rightarrow> string list \<Rightarrow> heap \<Rightarrow> heap" where
  "fill head a [] h = h"
| "fill head a (s # ss) h = fill head (a + 2) ss (snd (q_insert_tail head s a (a + 1) h))"

definition queue_of :: "string list \<Rightarrow> heap" where
  "queue_of ss = fill 1 2 ss (snd (q_new 1 heap0))"

text \<open>The heap after the two allocations of an insertion and the store to \<^verbatim>\<open>e->value\<close>.\<close>

definition with_element :: "string \<Rightarrow> addr \<Rightarrow> addr \<Rightarrow> heap \<Rightarrow> heap" where
  "with_element s e v h =
     (let h = strdup s v (malloc e h) in h\<lparr>e_value := (e_value h)(e := v)\<rparr>)"

section \<open>Sequences of calls\<close>

text \<open>One insertion for each entry of a list, each entry the string and the two pointers
  that \<^verbatim>\<open>malloc\<close> and \<^verbatim>\<open>strdup\<close> return for it; the results of the calls are collected. \<open>n\<close>
  calls of \<^verbatim>\<open>q_remove_head\<close> with the same buffer; the elements returned are collected.\<close>

fun insert_tails :: "addr \<Rightarrow> (string \<times> addr \<times> addr) list \<Rightarrow> heap \<Rightarrow> bool list \<times> heap" where
  "insert_tails head [] h = ([], h)"
| "insert_tails head ((s, e, v) # r) h =
     (case q_insert_tail head s e v h of (b, h) \<Rightarrow>
        case insert_tails head r h of (bs, h) \<Rightarrow> (b # bs, h))"

fun insert_heads :: "addr \<Rightarrow> (string \<times> addr \<times> addr) list \<Rightarrow> heap \<Rightarrow> bool list \<times> heap" where
  "insert_heads head [] h = ([], h)"
| "insert_heads head ((s, e, v) # r) h =
     (case q_insert_head head s e v h of (b, h) \<Rightarrow>
        case insert_heads head r h of (bs, h) \<Rightarrow> (b # bs, h))"

fun remove_heads ::
  "nat \<Rightarrow> addr \<Rightarrow> char list option \<Rightarrow> 'w::len word \<Rightarrow> heap \<Rightarrow> error + addr list \<times> heap" where
  "remove_heads 0 head sp bufsize h = Inr ([], h)"
| "remove_heads (Suc n) head sp bufsize h =
     (case q_remove_head head sp bufsize h of
        Inl err \<Rightarrow> Inl err
      | Inr (e, sp, h) \<Rightarrow>
          (case remove_heads n head sp bufsize h of
             Inl err \<Rightarrow> Inl err
           | Inr (es, h) \<Rightarrow> Inr (e # es, h)))"

text \<open>The buffer of a call holds what the call writes: there is no buffer, or \<^verbatim>\<open>bufsize\<close>
  is at least 1 and at most the number of bytes of the buffer.\<close>

definition fits :: "char list option \<Rightarrow> 'w::len word \<Rightarrow> bool" where
  "fits sp bufsize =
     (case sp of None \<Rightarrow> True | Some b \<Rightarrow> bufsize \<noteq> 0 \<and> unat bufsize \<le> length b)"

text \<open>The allocator returns blocks that are not allocated yet, all different and none
  at the null address.\<close>

definition fresh :: "heap \<Rightarrow> (string \<times> addr \<times> addr) list \<Rightarrow> bool" where
  "fresh h xs =
     (let bs = concat (map (\<lambda>(s, e, v). [e, v]) xs)
      in distinct bs \<and> 0 \<notin> set bs \<and> set bs \<inter> alloc h = {})"

section \<open>Heaps used in the statements\<close>

text \<open>The heap in which \<^verbatim>\<open>next\<close> and \<^verbatim>\<open>prev\<close> are exchanged on the nodes \<open>ns\<close>.\<close>

definition exchanged :: "addr list \<Rightarrow> heap \<Rightarrow> heap" where
  "exchanged ns h =
     h\<lparr>nxt := (\<lambda>a. if a \<in> set ns then prv h a else nxt h a),
       prv := (\<lambda>a. if a \<in> set ns then nxt h a else prv h a)\<rparr>"

section \<open>Deleting duplicates: the result\<close>

text \<open>What the loop of \<^verbatim>\<open>q_delete_dup\<close> and the step after it leave of the nodes from the
  current one on, \<open>d\<close> being \<^verbatim>\<open>del_cur\<close>.\<close>

fun dedup :: "(addr \<Rightarrow> string) \<Rightarrow> bool \<Rightarrow> addr list \<Rightarrow> addr list" where
  "dedup f d [] = []"
| "dedup f d [x] = (if d then [] else [x])"
| "dedup f d (x # y # ys) =
     (if strcmp (f x) (f y) = 0 then dedup f True (x # ys)
      else (if d then [] else [x]) @ dedup f False (y # ys))"

text \<open>The blocks of the listed elements: each element and its string.\<close>

definition blocks_of :: "heap \<Rightarrow> addr list \<Rightarrow> addr set" where
  "blocks_of h as = set as \<union> e_value h ` set as"

text \<open>Ownership, on the set of the elements.\<close>

definition owned :: "heap \<Rightarrow> addr \<Rightarrow> addr set \<Rightarrow> bool" where
  "owned h head S =
     (head \<notin> S \<and> inj_on (e_value h) S \<and> e_value h ` S \<inter> insert head S = {} \<and>
      0 \<notin> insert head (S \<union> e_value h ` S) \<and> insert head (S \<union> e_value h ` S) \<subseteq> alloc h)"

text \<open>The heap after the loop and the conditional deletion that follows it.\<close>

definition dup_finish :: "addr \<times> bool \<times> heap \<Rightarrow> heap" where
  "dup_finish r = (case r of (b, d, h) \<Rightarrow> if d then q_release_element b (list_del b h) else h)"

definition dup_post :: "heap \<Rightarrow> addr \<Rightarrow> addr list \<Rightarrow> addr list \<Rightarrow> addr list \<Rightarrow> heap \<Rightarrow> bool" where
  "dup_post h head pre cur res h' =
     (queue h' head (pre @ res) \<and> val h' = val h \<and> e_value h' = e_value h \<and>
      alloc h' = alloc h - blocks_of h (filter (\<lambda>a. a \<notin> set res) cur))"

text \<open>A C string has no zero byte before its end.\<close>

definition c_string :: "string \<Rightarrow> bool" where
  "c_string s = (CHR 0x00 \<notin> set s)"

section \<open>The partition sort\<close>

text \<open>\<^verbatim>\<open>list_qsort\<close>. The three local sentinels live in the stack frame of the call: the
  frame of a call is the three addresses from \<open>sp\<close> on, and the calls it makes get the
  frame that starts at \<open>sp + 3\<close>. \<^verbatim>\<open>list_for_each_entry_safe\<close> keeps in \<^verbatim>\<open>is\<close> the node after
  \<^verbatim>\<open>item\<close>, read before the body runs.\<close>

partial_function (option) partition_loop ::
  "addr \<Rightarrow> addr \<Rightarrow> addr \<Rightarrow> addr \<Rightarrow> addr \<Rightarrow> addr \<Rightarrow> addr \<Rightarrow> heap \<Rightarrow> heap option" where
  "partition_loop head pivot list_less list_equal list_greater item is h =
     (if item \<noteq> head then
        (let h = (if strcmp (val h item) (val h pivot) = 0
                  then list_move_tail item list_equal h
                  else if strcmp (val h item) (val h pivot) < 0
                  then list_move_tail item list_less h
                  else list_move item list_greater h)
         in partition_loop head pivot list_less list_equal list_greater is (nxt h is) h)
      else Some h)"

partial_function (option) list_qsort :: "addr \<Rightarrow> addr \<Rightarrow> heap \<Rightarrow> heap option" where
  "list_qsort head sp h =
     (if list_empty head h \<or> list_is_singular head h then Some h
      else
        (let list_less = sp; list_greater = sp + 1; list_equal = sp + 2;
             h = INIT_LIST_HEAD list_less h;
             h = INIT_LIST_HEAD list_equal h;
             h = INIT_LIST_HEAD list_greater h;
             pivot = nxt h head;
             h = list_del_init pivot h;
             item = nxt h head
         in Option.bind
              (partition_loop head pivot list_less list_equal list_greater item (nxt h item) h)
              (\<lambda>h. Option.bind (list_qsort list_less (sp + 3) h)
              (\<lambda>h. Option.bind (list_qsort list_greater (sp + 3) h)
              (\<lambda>h. Some (list_splice_tail list_greater head
                            (list_splice list_less head
                              (list_splice list_equal head
                                (list_add pivot head h)))))))))"

text \<open>The order in which \<^verbatim>\<open>list_qsort\<close> leaves the nodes, \<open>f\<close> giving the value of a node:
  the sorted bucket of the smaller ones, the bucket of the equal ones, the pivot, the
  sorted bucket of the greater ones. The pass appends to the first two buckets and
  prepends to the third.\<close>

fun qsort_spec :: "(addr \<Rightarrow> string) \<Rightarrow> addr list \<Rightarrow> addr list" where
  "qsort_spec f [] = []"
| "qsort_spec f (p # xs) =
     qsort_spec f (filter (\<lambda>a. strcmp (f a) (f p) < 0) xs) @
     filter (\<lambda>a. strcmp (f a) (f p) = 0) xs @ [p] @
     qsort_spec f (rev (filter (\<lambda>a. strcmp (f a) (f p) > 0) xs))"

text \<open>Two heaps with the same links on a set of nodes.\<close>

definition same_links :: "heap \<Rightarrow> heap \<Rightarrow> addr set \<Rightarrow> bool" where
  "same_links h h' S = (\<forall>a\<in>S. nxt h' a = nxt h a \<and> prv h' a = prv h a)"

text \<open>Two heaps with the same elements, strings and allocated blocks.\<close>

definition same_data :: "heap \<Rightarrow> heap \<Rightarrow> bool" where
  "same_data h h' = (e_value h' = e_value h \<and> str h' = str h \<and> alloc h' = alloc h)"

text \<open>The list being split and the three buckets: four lists that share no node.\<close>

definition four ::
  "heap \<Rightarrow> addr \<Rightarrow> addr list \<Rightarrow> addr \<Rightarrow> addr list \<Rightarrow> addr \<Rightarrow> addr list \<Rightarrow> addr \<Rightarrow> addr list \<Rightarrow> bool" where
  "four h H hs L ls E es G gs =
     (dll h H hs \<and> dll h L ls \<and> dll h E es \<and> dll h G gs \<and>
      distinct (H # hs @ L # ls @ E # es @ G # gs))"

section \<open>The shape of the lists in the sort\<close>

text \<open>A singly linked list that ends in the null pointer: what the sort works on after
  it has cut the circle.\<close>

fun sll :: "heap \<Rightarrow> addr \<Rightarrow> addr list \<Rightarrow> bool" where
  "sll h a [] = (a = 0)"
| "sll h a (x # xs) = (a = x \<and> x \<noteq> 0 \<and> sll h (nxt h x) xs)"

text \<open>A list made of pairs of equal values, the value changing from each pair to the
  next.\<close>

fun pairs :: "(addr \<Rightarrow> string) \<Rightarrow> addr list \<Rightarrow> bool" where
  "pairs f (x # y # rest) =
     (strcmp (f x) (f y) = 0 \<and>
      (rest = [] \<or> (strcmp (f y) (f (hd rest)) \<noteq> 0 \<and> pairs f rest)))"
| "pairs f [x] = False"
| "pairs f [] = False"

section \<open>Swapping pairs: the result\<close>


section \<open>The lists of the sort and the circular list\<close>




section \<open>Evaluation\<close>

declare mid_loop.simps [code] dup_loop.simps [code] swap_loop.simps [code]
  reverse_loop.simps [code] merge_loop.simps [code] skip_equal.simps [code]
  find_split.simps [code] split_loop.simps [code] merge_pass.simps [code]
  merge_runs.simps [code] relink_loop.simps [code]

section \<open>The sort on a list that ends in a run of equal values\<close>

text \<open>C1. The specification has \<^verbatim>\<open>q_sort\<close> leave every list in non-decreasing order. On the
  list b, a, a, a, a the sort returns with the circular structure rebuilt and the
  elements in the order they had: the split loop meets the run of equal values at its
  second step, runs \<^verbatim>\<open>slow\<close> to the last node, and the whole list becomes one ready run.
  The result is not in non-decreasing order.\<close>

theorem q_sort_keeps_unsorted_run:
  "(case q_sort 1 (queue_of [''b'', ''a'', ''a'', ''a'', ''a'']) of
      Some (Inr h) \<Rightarrow>
        dll h 1 [2, 4, 6, 8, 10] \<and>
        map (val h) [2, 4, 6, 8, 10] = [''b'', ''a'', ''a'', ''a'', ''a''] \<and>
        \<not> ascending (map (val h) [2, 4, 6, 8, 10])
    | _ \<Rightarrow> False)"
  by code_simp

section \<open>The middle of a list of even length\<close>

text \<open>C2. The specification has \<^verbatim>\<open>q_delete_mid\<close> delete the element at index n div 2, so the
  value 3 of the six elements 0, 1, 2, 3, 4, 5. The two pointers of the loop stop when
  \<^verbatim>\<open>f\<close> is the node before \<^verbatim>\<open>b\<close>, and \<^verbatim>\<open>f\<close> is deleted: the element at index 2, the value
  2, is unlinked and released, and 0, 1, 3, 4, 5 are left.\<close>

theorem q_delete_mid_six:
  "(case q_delete_mid 1 (queue_of [''0'', ''1'', ''2'', ''3'', ''4'', ''5'']) of
      None \<Rightarrow> False
    | Some (r, h) \<Rightarrow>
        r \<and> dll h 1 [2, 4, 8, 10, 12] \<and>
        map (val h) [2, 4, 8, 10, 12] = [''0'', ''1'', ''3'', ''4'', ''5''] \<and>
        alloc h = {1, 2, 3, 4, 5, 8, 9, 10, 11, 12, 13})"
  by code_simp

section \<open>The copy into the buffer\<close>

lemma copy_len_0: "copy_len (0 :: 'w::len word) = 2 ^ LENGTH('w) - 1"
  unfolding copy_len_def
  by (simp add: unsigned_minus_1_eq_mask mask_eq_exp_minus_1)

lemma copy_len_pos:
  fixes bufsize :: "'w::len word"
  shows "bufsize \<noteq> 0 \<Longrightarrow> copy_len bufsize = unat bufsize - 1"
  unfolding copy_len_def by (rule unat_minus_one)

lemma copy_len_mod:
  fixes bufsize :: "'w::len word"
  shows "copy_len bufsize = (unat bufsize + 2 ^ LENGTH('w) - 1) mod 2 ^ LENGTH('w)"
proof (cases "bufsize = 0")
  case True
  then show ?thesis by (simp add: copy_len_0)
next
  case False
  then have pos: "0 < unat bufsize" by (simp add: unat_gt_0)
  have lt: "unat bufsize < 2 ^ LENGTH('w)" by (rule unsigned_less)
  have "unat bufsize + 2 ^ LENGTH('w) - 1 = (unat bufsize - 1) + 2 ^ LENGTH('w)"
    using pos by simp
  moreover have "unat bufsize - 1 < 2 ^ LENGTH('w)"
    using lt by arith
  ultimately have "(unat bufsize + 2 ^ LENGTH('w) - 1) mod 2 ^ LENGTH('w) = unat bufsize - 1"
    by (simp only: mod_add_self2 mod_less)
  then show ?thesis using False by (simp add: copy_len_pos)
qed

lemma padded_length: "length (take n (s @ replicate (n - length s) z)) = n"
  by simp

lemma padded_nth:
  "i < n \<Longrightarrow> take n (s @ replicate (n - length s) z) ! i = (if i < length s then s ! i else z)"
  by (simp add: nth_append)

lemma written_nth:
  assumes n: "n < length sp" and i: "i < length sp"
  shows "(take n (s @ replicate (n - length s) z) @ drop n sp)[n := z] ! i =
         (if i < n then (if i < length s then s ! i else z) else if i = n then z else sp ! i)"
proof -
  let ?p = "take n (s @ replicate (n - length s) z)"
  have l: "length ?p = n" by (rule padded_length)
  have len: "length (?p @ drop n sp) = length sp" using n by (simp only: length_append l length_drop)
  consider "i < n" | "i = n" | "n < i" by arith
  then show ?thesis
  proof cases
    case 1
    then have "(?p @ drop n sp)[n := z] ! i = (?p @ drop n sp) ! i" by simp
    also have "\<dots> = ?p ! i" using 1 l by (simp only: nth_append) simp
    also have "\<dots> = (if i < length s then s ! i else z)" using 1 by (rule padded_nth)
    finally show ?thesis using 1 by simp
  next
    case 2
    then show ?thesis using len n by (simp only: nth_list_update_eq) simp
  next
    case 3
    then have "(?p @ drop n sp)[n := z] ! i = (?p @ drop n sp) ! i" by simp
    also have "\<dots> = drop n sp ! (i - n)" using 3 l by (simp only: nth_append) simp
    also have "\<dots> = sp ! i" using 3 i by simp
    finally show ?thesis using 3 by simp
  qed
qed

lemma copy_out_cases:
  "copy_out sp s bufsize =
     (if copy_len bufsize < length sp
      then Inr (map (\<lambda>i. if i < copy_len bufsize
                          then (if i < length s then s ! i else CHR 0x00)
                          else if i = copy_len bufsize then CHR 0x00 else sp ! i)
                  [0..<length sp])
      else Inl BufferOutOfBounds)"
proof (cases "copy_len bufsize < length sp")
  case True
  define n where "n = copy_len bufsize"
  have n: "n < length sp" using True by (simp add: n_def)
  let ?b = "(take n (s @ replicate (n - length s) (CHR 0x00)) @ drop n sp)[n := CHR 0x00]"
  have len: "length ?b = length sp" using n by simp
  have "?b = map (\<lambda>i. if i < n then (if i < length s then s ! i else CHR 0x00)
                else if i = n then CHR 0x00 else sp ! i) [0..<length sp]"
    using len written_nth [OF n, of _ s "CHR 0x00"]
    by (intro nth_equalityI) simp_all
  then show ?thesis
    using True by (simp add: copy_out_def strncpy_def store_char_def n_def)
next
  case False
  show ?thesis
  proof (cases "copy_len bufsize = length sp")
    case True
    have "length (take (length sp) (s @ replicate (length sp - length s) (CHR 0x00))) = length sp"
      by (rule padded_length)
    then show ?thesis
      using False True by (simp add: copy_out_def strncpy_def store_char_def del: length_take)
  next
    case F: False
    then show ?thesis using False by (simp add: copy_out_def strncpy_def store_char_def)
  qed
qed

lemma copy_len_fits:
  fixes bufsize :: "'w::len word"
  shows "bufsize \<noteq> 0 \<Longrightarrow> (copy_len bufsize < length sp) = (unat bufsize \<le> length sp)"
  using unat_gt_0 [of bufsize] by (simp add: copy_len_pos) arith

lemma copy_out_zero:
  "length sp < 2 ^ LENGTH('w) \<Longrightarrow> copy_out sp s (0 :: 'w::len word) = Inl BufferOutOfBounds"
  by (simp add: copy_out_cases copy_len_0)

lemma copy_out_length:
  "fits (Some sp) bufsize \<Longrightarrow> \<exists>b. copy_out sp s bufsize = Inr b \<and> length b = length sp"
  by (simp add: fits_def copy_out_cases copy_len_fits)

text \<open>C10. On a non-empty list with a buffer, \<^verbatim>\<open>q_remove_head\<close> and \<^verbatim>\<open>q_remove_tail\<close> copy
  \<open>copy_len bufsize\<close> bytes, which is \<^verbatim>\<open>bufsize - 1\<close> modulo \<open>2 ^ w\<close>, and write the
  terminator at that index; the call returns the element and unlinks it when that index
  is inside the buffer, and is a write outside it otherwise. For \<^verbatim>\<open>bufsize\<close> of 1 or more
  the copy length is \<^verbatim>\<open>bufsize\<close> less 1 and the index is inside exactly when \<^verbatim>\<open>bufsize\<close> is
  at most the length of the buffer. For
  \<^verbatim>\<open>bufsize = 0\<close> the copy length and the index are \<open>2 ^ w - 1\<close>, and with a buffer of any
  length that a \<^verbatim>\<open>size_t\<close> can hold the call is a write outside the buffer: nothing is
  returned and nothing is unlinked.\<close>

theorem remove_copy_length:
  fixes bufsize :: "'w::len word"
  assumes "head \<noteq> 0" and "\<not> list_empty head h"
  shows "copy_len bufsize = (unat bufsize + 2 ^ LENGTH('w) - 1) mod 2 ^ LENGTH('w) \<and>
         copy_len (0 :: 'w word) = 2 ^ LENGTH('w) - 1 \<and>
         q_remove_head head (Some sp) bufsize h =
           (case copy_out sp (val h (nxt h head)) bufsize of
              Inl err \<Rightarrow> Inl err
            | Inr b \<Rightarrow> Inr (nxt h head, Some b, list_del (nxt h head) h)) \<and>
         q_remove_tail head (Some sp) bufsize h =
           (case copy_out sp (val h (prv h head)) bufsize of
              Inl err \<Rightarrow> Inl err
            | Inr b \<Rightarrow> Inr (prv h head, Some b, list_del (prv h head) h)) \<and>
         (\<forall>s. copy_out sp s bufsize =
            (if copy_len bufsize < length sp
             then Inr (map (\<lambda>i. if i < copy_len bufsize
                                 then (if i < length s then s ! i else CHR 0x00)
                                 else if i = copy_len bufsize then CHR 0x00 else sp ! i)
                         [0..<length sp])
             else Inl BufferOutOfBounds)) \<and>
         (bufsize \<noteq> 0 \<longrightarrow>
            copy_len bufsize = unat bufsize - 1 \<and>
            (copy_len bufsize < length sp) = (unat bufsize \<le> length sp)) \<and>
         (length sp < 2 ^ LENGTH('w) \<longrightarrow>
            q_remove_head head (Some sp) (0 :: 'w word) h = Inl BufferOutOfBounds \<and>
            q_remove_tail head (Some sp) (0 :: 'w word) h = Inl BufferOutOfBounds)"
proof -
  have 1: "copy_len bufsize = (unat bufsize + 2 ^ LENGTH('w) - 1) mod 2 ^ LENGTH('w)"
    by (rule copy_len_mod)
  have 2: "copy_len (0 :: 'w word) = 2 ^ LENGTH('w) - 1" by (rule copy_len_0)
  have 3: "q_remove_head head (Some sp) b h =
           (case copy_out sp (val h (nxt h head)) b of
              Inl err \<Rightarrow> Inl err
            | Inr b \<Rightarrow> Inr (nxt h head, Some b, list_del (nxt h head) h))" for b :: "'w word"
    using assms by (simp add: q_remove_head_def Let_def split: sum.splits)
  have 4: "q_remove_tail head (Some sp) b h =
           (case copy_out sp (val h (prv h head)) b of
              Inl err \<Rightarrow> Inl err
            | Inr b \<Rightarrow> Inr (prv h head, Some b, list_del (prv h head) h))" for b :: "'w word"
    using assms by (simp add: q_remove_tail_def Let_def split: sum.splits)
  have 5: "bufsize \<noteq> 0 \<longrightarrow>
            copy_len bufsize = unat bufsize - 1 \<and>
            (copy_len bufsize < length sp) = (unat bufsize \<le> length sp)"
    using copy_len_fits [of bufsize sp] copy_len_pos [of bufsize] by blast
  have 6: "length sp < 2 ^ LENGTH('w) \<longrightarrow>
            q_remove_head head (Some sp) (0 :: 'w word) h = Inl BufferOutOfBounds \<and>
            q_remove_tail head (Some sp) (0 :: 'w word) h = Inl BufferOutOfBounds"
    by (simp add: 3 4 copy_out_zero)
  show ?thesis using 1 2 3 4 5 6 copy_out_cases [of sp _ bufsize] by blast
qed

theorem remove_copy_length_witness:
  "q_remove_head 1 (Some ''xxxx'') (3 :: 64 word) (queue_of [''abc'']) =
     Inr (2, Some [CHR ''a'', CHR ''b'', CHR 0x00, CHR ''x''], list_del 2 (queue_of [''abc''])) \<and>
   copy_len (0 :: 64 word) = 18446744073709551615 \<and>
   q_remove_head 1 (Some ''xxxx'') (0 :: 64 word) (queue_of [''abc'']) = Inl BufferOutOfBounds \<and>
   q_remove_tail 1 (Some ''xxxx'') (0 :: 64 word) (queue_of [''abc'']) = Inl BufferOutOfBounds"
proof -
  have a: "(1::addr) \<noteq> 0" by simp
  have b: "\<not> list_empty 1 (queue_of [''abc''])" by code_simp
  have c: "nxt (queue_of [''abc'']) (Suc 0) = 2" by code_simp
  have d: "val (queue_of [''abc'']) 2 = ''abc''" by code_simp
  have e: "copy_len (3 :: 64 word) = 2" by (simp add: copy_len_def)
  have f: "[0..<4] = [0, 1, 2, 3]" by (simp add: upt_rec)
  show ?thesis
    using remove_copy_length [OF a b, of "3 :: 64 word" "''xxxx''"]
    by (simp add: c d e f)
qed

section \<open>Lemmas on the link primitive\<close>

lemma links_Nil [simp]: "links h []"
  by (simp add: links_def)

lemma links_single [simp]: "links h [a]"
  by (simp add: links_def)

lemma links_Cons2 [simp]:
  "links h (a # b # cs) = (nxt h a = b \<and> prv h b = a \<and> links h (b # cs))"
  by (simp add: links_def)

lemma links_append: "links h (xs @ y # ys) = (links h (xs @ [y]) \<and> links h (y # ys))"
  by (cases xs rule: rev_cases) (auto simp: links_def successively_append_iff successively_Cons)

lemma links_frame:
  assumes "\<forall>a\<in>set (butlast cs). nxt h' a = nxt h a"
    and "\<forall>a\<in>set (tl cs). prv h' a = prv h a"
  shows "links h' cs = links h cs"
  using assms
proof (induction cs rule: induct_list012)
  case (3 a b cs)
  then show ?case by auto
qed simp_all

lemma dll_nxt: "dll h head (xs @ x # ys) \<Longrightarrow> nxt h x = hd (ys @ [head])"
  unfolding dll_def
  using links_append [of h "head # xs" x "ys @ [head]"]
  by (cases ys) auto

lemma links_append2:
  "links h (xs @ a # b # ys) = (links h (xs @ [a]) \<and> nxt h a = b \<and> prv h b = a \<and> links h (b # ys))"
  using links_append [of h xs a "b # ys"] by simp

lemma dll_prv: "dll h head (xs @ x # ys) \<Longrightarrow> prv h x = last (head # xs)"
proof (cases xs rule: rev_cases)
  case Nil
  assume "dll h head (xs @ x # ys)"
  with Nil show ?thesis by (simp add: dll_def)
next
  case (snoc zs z)
  assume "dll h head (xs @ x # ys)"
  with snoc have "links h ((head # zs) @ z # x # ys @ [head])" by (simp add: dll_def)
  then show ?thesis unfolding links_append2 using snoc by simp
qed

lemma dll_nxt_head: "dll h head as \<Longrightarrow> nxt h head = hd (as @ [head])"
  unfolding dll_def by (cases as) auto

lemma dll_prv_head: "dll h head as \<Longrightarrow> prv h head = last (head # as)"
proof (cases as rule: rev_cases)
  case Nil
  assume "dll h head as"
  with Nil show ?thesis by (simp add: dll_def)
next
  case (snoc zs z)
  assume "dll h head as"
  with snoc have "links h ((head # zs) @ z # head # [])" by (simp add: dll_def)
  then show ?thesis unfolding links_append2 using snoc by simp
qed

lemma links_appendD: "links h (xs @ ys) \<Longrightarrow> links h xs \<and> links h ys"
  by (simp add: links_def successively_append_iff)

lemma last_notin_butlast: "distinct xs \<Longrightarrow> last xs \<notin> set (butlast xs)"
  by (induction xs) auto

lemma hd_notin_tl: "distinct xs \<Longrightarrow> hd xs \<notin> set (tl xs)"
  by (cases xs) auto

text \<open>Relinking at one place: \<open>P\<close> ends in \<open>p\<close>, \<open>S\<close> starts with \<open>n\<close>, and the heap changes
  \<open>next\<close> only at \<open>p\<close> (and at nodes outside) and \<open>prev\<close> only at \<open>n\<close>.\<close>

lemma links_join:
  assumes P: "links h P" and S: "links h S"
    and ne: "P \<noteq> []" "S \<noteq> []"
    and d: "distinct P" "distinct S"
    and n: "\<forall>a\<in>set (butlast P @ butlast S). nxt h' a = nxt h a"
    and p: "\<forall>a\<in>set (tl P @ tl S). prv h' a = prv h a"
    and j: "nxt h' (last P) = hd S" "prv h' (hd S) = last P"
  shows "links h' (P @ S)"
proof -
  have 1: "links h' P = links h P" using n p by (intro links_frame) auto
  have 2: "links h' S = links h S" using n p by (intro links_frame) auto
  obtain P' where P': "P = P' @ [last P]" using ne by (metis append_butlast_last_id)
  obtain S' where S': "S = hd S # S'" using ne by (cases S) auto
  have "links h' (P' @ last P # hd S # S')"
    unfolding links_append2 using 1 2 P S P' S' j by metis
  then show ?thesis using P' S' by (metis append.assoc append_Cons append_Nil)
qed

lemma dll_del:
  assumes "dll h head (xs @ x # ys)"
  shows "dll (list_del x h) head (xs @ ys)"
proof -
  let ?P = "head # xs" and ?S = "ys @ [head]"
  let ?h = "list_del x h"
  from assms have d: "distinct (head # xs @ x # ys)" and l: "links h (?P @ x # ?S)"
    by (simp_all add: dll_def)
  have nx: "nxt h x = hd ?S" using dll_nxt [OF assms] .
  have px: "prv h x = last ?P" using dll_prv [OF assms] .
  have h: "nxt ?h = (nxt h)(last ?P := hd ?S)" "prv ?h = (prv h)(hd ?S := last ?P)"
    by (simp_all add: list_del_def Let_def nx px)
  have lP: "links h ?P" and lS: "links h ?S"
    using links_appendD [OF l] links_appendD [of h "[x]" ?S] by simp_all
  have pin: "last ?P \<in> set ?P" and nin: "hd ?S \<in> set ?S"
    using last_in_set [of ?P] hd_in_set [of ?S] by blast+
  have "links ?h (?P @ ?S)"
  proof (rule links_join [OF lP lS])
    show "\<forall>a\<in>set (butlast ?P @ butlast ?S). nxt ?h a = nxt h a"
      using d last_notin_butlast [of ?P] pin
      by (auto simp del: butlast.simps last.simps simp: h)
    show "\<forall>a\<in>set (tl ?P @ tl ?S). prv ?h a = prv h a"
      using d hd_notin_tl [of ?S] nin by (cases ys) (auto simp: h)
    show "distinct ?P" "distinct ?S" using d by auto
  qed (simp_all add: h)
  then show ?thesis using d by (simp add: dll_def)
qed


lemma links_app:
  "P \<noteq> [] \<Longrightarrow> S \<noteq> [] \<Longrightarrow>
   links h (P @ S) = (links h P \<and> links h S \<and> nxt h (last P) = hd S \<and> prv h (hd S) = last P)"
  by (auto simp: links_def successively_append_iff)

lemma dll_add_after:
  assumes "dll h head (xs @ ys)" and e: "e \<notin> set (head # xs @ ys)"
  shows "dll (list_add e (last (head # xs)) h) head (xs @ e # ys)"
proof -
  let ?P = "head # xs" and ?S = "ys @ [head]"
  define p where "p = last ?P"
  define n where "n = hd ?S"
  let ?h = "list_add e p h"
  from assms have d: "distinct (head # xs @ ys)" and l: "links h (?P @ ?S)"
    by (simp_all add: dll_def)
  from l have lP: "links h ?P" and lS: "links h ?S" and np: "nxt h p = n"
    unfolding p_def n_def using links_app [of ?P ?S h] by simp_all
  have h: "nxt ?h = (nxt h)(e := n, p := e)" "prv ?h = (prv h)(n := e, e := p)"
    by (simp_all add: list_add_def Let_def np)
  have pin: "p \<in> set ?P" and nin: "n \<in> set ?S"
    unfolding p_def n_def using last_in_set [of ?P] hd_in_set [of ?S] by blast+
  have ep: "e \<noteq> p" and en: "e \<noteq> n" using e pin nin by auto
  have pb: "p \<notin> set (butlast ?P)" and nt: "n \<notin> set (tl ?S)"
    unfolding p_def n_def using last_notin_butlast [of ?P] hd_notin_tl [of ?S] d by auto
  have 1: "links ?h ?P = links h ?P"
  proof (rule links_frame)
    show "\<forall>a\<in>set (butlast ?P). nxt ?h a = nxt h a"
      using e pb in_set_butlastD [of _ ?P]
      by (auto simp del: butlast.simps simp: h)
    show "\<forall>a\<in>set (tl ?P). prv ?h a = prv h a"
      using e d nin by (auto simp: h)
  qed
  have 2: "links ?h ?S = links h ?S"
  proof (rule links_frame)
    show "\<forall>a\<in>set (butlast ?S). nxt ?h a = nxt h a"
      using e d pin by (auto simp: h)
    show "\<forall>a\<in>set (tl ?S). prv ?h a = prv h a"
      using e nt list.set_sel(2) [of ?S] by (auto simp: h)
  qed
  obtain S' where S': "?S = n # S'" unfolding n_def by (cases ?S) auto
  have "links ?h (n # S')" using 2 lS by (simp only: S' [symmetric])
  moreover have "nxt ?h e = n" "prv ?h n = e" using ep en by (simp_all add: h)
  ultimately have "links ?h (e # n # S')" by (simp only: links_Cons2 simp_thms)
  then have "links ?h (e # ?S)" by (simp only: S')
  moreover have "nxt ?h (last ?P) = hd (e # ?S)" "prv ?h (hd (e # ?S)) = last ?P"
    unfolding p_def [symmetric] using ep by (simp_all add: h)
  moreover have "links ?h ?P" using 1 lP by simp
  ultimately have "links ?h (?P @ (e # ?S))"
    using links_app [of ?P "e # ?S" ?h] by blast
  then show ?thesis using d e by (simp add: dll_def p_def)
qed

lemma list_add_tail_eq:
  assumes "dll h head (xs @ ys)" and e: "e \<notin> set (head # xs @ ys)"
  shows "list_add_tail e (hd (ys @ [head])) h = list_add e (last (head # xs)) h"
proof -
  let ?P = "head # xs" and ?S = "ys @ [head]"
  define p where "p = last ?P"
  define n where "n = hd ?S"
  from assms have l: "links h (?P @ ?S)" by (simp add: dll_def)
  then have np: "nxt h p = n" "prv h n = p"
    unfolding p_def n_def using links_app [of ?P ?S h] by simp_all
  have "p \<in> set ?P" and "n \<in> set ?S"
    unfolding p_def n_def using last_in_set [of ?P] hd_in_set [of ?S] by blast+
  then have "e \<noteq> p" "e \<noteq> n" using e by auto
  then have "list_add_tail e n h = list_add e p h"
    by (simp add: list_add_tail_def list_add_def Let_def np fun_upd_twist)
  then show ?thesis by (simp add: p_def n_def)
qed

lemma dll_add_before:
  assumes "dll h head (xs @ ys)" and e: "e \<notin> set (head # xs @ ys)"
  shows "dll (list_add_tail e (hd (ys @ [head])) h) head (xs @ e # ys)"
  using dll_add_after [OF assms] list_add_tail_eq [OF assms] by simp

lemma dll_list_add:
  "dll h head as \<Longrightarrow> e \<notin> set (head # as) \<Longrightarrow> dll (list_add e head h) head (e # as)"
  using dll_add_after [of h head "[]" as e] by simp

lemma dll_list_add_tail:
  "dll h head as \<Longrightarrow> e \<notin> set (head # as) \<Longrightarrow> dll (list_add_tail e head h) head (as @ [e])"
  using dll_add_before [of h head as "[]" e] by simp

lemma list_add_fields [simp]:
  "e_value (list_add e x h) = e_value h" "str (list_add e x h) = str h"
  "alloc (list_add e x h) = alloc h"
  by (simp_all add: list_add_def Let_def)

lemma list_add_tail_fields [simp]:
  "e_value (list_add_tail e x h) = e_value h" "str (list_add_tail e x h) = str h"
  "alloc (list_add_tail e x h) = alloc h"
  by (simp_all add: list_add_tail_def Let_def)

lemma list_del_fields [simp]:
  "e_value (list_del x h) = e_value h" "str (list_del x h) = str h"
  "alloc (list_del x h) = alloc h"
  by (simp_all add: list_del_def Let_def)

lemma val_list_add [simp]: "val (list_add e x h) = val h"
  by (simp add: val_def fun_eq_iff)

lemma val_list_add_tail [simp]: "val (list_add_tail e x h) = val h"
  by (simp add: val_def fun_eq_iff)

lemma val_list_del [simp]: "val (list_del x h) = val h"
  by (simp add: val_def fun_eq_iff)

lemma dll_fields_cong:
  "nxt h' = nxt h \<Longrightarrow> prv h' = prv h \<Longrightarrow> dll h' head as = dll h head as"
  by (simp add: dll_def links_def)

lemma q_insert_head_ok:
  "head \<noteq> 0 \<Longrightarrow> e \<noteq> 0 \<Longrightarrow> v \<noteq> 0 \<Longrightarrow>
   q_insert_head head s e v h = (True, list_add e head (with_element s e v h))"
  by (simp add: q_insert_head_def with_element_def Let_def)

lemma q_insert_tail_ok:
  "head \<noteq> 0 \<Longrightarrow> e \<noteq> 0 \<Longrightarrow> v \<noteq> 0 \<Longrightarrow>
   q_insert_tail head s e v h = (True, list_add_tail e head (with_element s e v h))"
  by (simp add: q_insert_tail_def with_element_def Let_def)

lemma q_insert_fail:
  assumes "e = 0 \<or> v = 0" "e = 0 \<or> e \<notin> alloc h"
  shows "q_insert_head head s e v h = (False, if head = 0 \<or> e = 0 then h else h\<lparr>e_value := (e_value h)(e := 0)\<rparr>)"
    and "q_insert_tail head s e v h = (False, if head = 0 \<or> e = 0 then h else h\<lparr>e_value := (e_value h)(e := 0)\<rparr>)"
  using assms
  by (auto simp: q_insert_head_def q_insert_tail_def malloc_def strdup_def Let_def err_ele_def err_str_def free_def)

lemma queue_with_element:
  assumes q: "queue h head as" and "e \<notin> alloc h" "v \<notin> alloc h" "e \<noteq> 0" "v \<noteq> 0"
  shows "dll (with_element s e v h) head as" "map (val (with_element s e v h)) as = map (val h) as"
    "map (e_value (with_element s e v h)) as = map (e_value h) as"
    "val (with_element s e v h) e = s" "e \<notin> set (head # as)"
  using assms
  by (auto simp: queue_def blocks_def with_element_def malloc_def strdup_def Let_def val_def dll_def links_def)

section \<open>Insertion\<close>

lemma with_element_fields:
  assumes "e \<noteq> 0" "v \<noteq> 0"
  shows "nxt (with_element s e v h) = nxt h" "prv (with_element s e v h) = prv h"
    "e_value (with_element s e v h) = (e_value h)(e := v)"
    "str (with_element s e v h) = (str h)(v := s)"
    "alloc (with_element s e v h) = insert e (insert v (alloc h))"
  using assms by (auto simp: with_element_def malloc_def strdup_def Let_def)

lemma queue_insert:
  assumes q: "queue h head as" and f: "e \<notin> alloc h" "v \<notin> alloc h" "e \<noteq> v"
    and nz: "e \<noteq> 0" "v \<noteq> 0"
    and d: "dll h' head (xs @ e # ys)" "as = xs @ ys"
    and h': "e_value h' = (e_value h)(e := v)" "str h' = (str h)(v := s)"
      "alloc h' = insert e (insert v (alloc h))"
  shows "queue h' head (xs @ e # ys)"
    and "map (val h') (xs @ e # ys) = map (val h) xs @ s # map (val h) ys"
proof -
  have a: "set as \<subseteq> alloc h" "e_value h ` set as \<subseteq> alloc h" "head \<in> alloc h"
    using q by (auto simp: queue_def blocks_def)
  then have e: "e \<notin> set as" "v \<notin> set as" "v \<notin> e_value h ` set as" "e \<notin> e_value h ` set as"
    "head \<noteq> e" "head \<noteq> v"
    using f by auto
  have m: "map (e_value h') as = map (e_value h) as" using e by (simp add: h')
  have m': "map (e_value h') xs = map (e_value h) xs" "map (e_value h') ys = map (e_value h) ys"
    using m d(2) by simp_all
  show "queue h' head (xs @ e # ys)"
    using q e f nz d unfolding queue_def blocks_def
    by (simp add: m' h') blast
  show "map (val h') (xs @ e # ys) = map (val h) xs @ s # map (val h) ys"
    using e d(2) by (auto simp: val_def h')
qed

text \<open>C7. On a queue, with \<open>e\<close> and \<open>v\<close> the results of \<^verbatim>\<open>malloc\<close> and \<^verbatim>\<open>strdup\<close> (0 for a
  failure, otherwise a block that was not allocated): with an absent handle both
  insertions return false and change nothing; when either allocation fails both return
  false, the queue has the same nodes, links and values as before, and exactly the blocks
  allocated before are allocated after, so the element of the partial failure is freed;
  otherwise both return true, the new element is first (\<^verbatim>\<open>q_insert_head\<close>) or last
  (\<^verbatim>\<open>q_insert_tail\<close>), its value is a copy of \<open>s\<close> in the new block \<open>v\<close>, and the blocks
  \<open>e\<close> and \<open>v\<close> are the only new ones.\<close>

theorem q_insert_contract:
  assumes q: "queue h head as"
    and f: "e = 0 \<or> e \<notin> alloc h" "v = 0 \<or> v \<notin> alloc h" "e = 0 \<or> e \<noteq> v"
  shows "q_insert_head 0 s e v h = (False, h) \<and> q_insert_tail 0 s e v h = (False, h) \<and>
    (if e = 0 \<or> v = 0
     then \<exists>h'. q_insert_head head s e v h = (False, h') \<and>
                q_insert_tail head s e v h = (False, h') \<and>
                queue h' head as \<and> map (val h') as = map (val h) as \<and>
                nxt h' = nxt h \<and> prv h' = prv h \<and> alloc h' = alloc h
     else \<exists>h1 h2. q_insert_head head s e v h = (True, h1) \<and>
                queue h1 head (e # as) \<and> map (val h1) (e # as) = s # map (val h) as \<and>
                alloc h1 = alloc h \<union> {e, v} \<and>
                q_insert_tail head s e v h = (True, h2) \<and>
                queue h2 head (as @ [e]) \<and> map (val h2) (as @ [e]) = map (val h) as @ [s] \<and>
                alloc h2 = alloc h \<union> {e, v})"
proof -
  have hz: "head \<noteq> 0" using q by (auto simp: queue_def blocks_def)
  have absent: "q_insert_head 0 s e v h = (False, h)" "q_insert_tail 0 s e v h = (False, h)"
    by (simp_all add: q_insert_head_def q_insert_tail_def)
  show ?thesis
  proof (cases "e = 0 \<or> v = 0")
    case True
    let ?h = "if e = 0 then h else h\<lparr>e_value := (e_value h)(e := 0)\<rparr>"
    have r: "q_insert_head head s e v h = (False, ?h)" "q_insert_tail head s e v h = (False, ?h)"
      using q_insert_fail [OF True f(1), of head s] hz by simp_all
    have "e \<notin> set as" if "e \<noteq> 0" using that q f(1) by (auto simp: queue_def blocks_def)
    then have m: "map (e_value ?h) as = map (e_value h) as" by auto
    have "queue ?h head as"
      using q unfolding queue_def blocks_def m by (simp add: dll_def links_def)
    moreover have "map (val ?h) as = map (val h) as"
      using m by (auto simp: val_def)
    ultimately show ?thesis using True r absent by auto
  next
    case False
    then have nz: "e \<noteq> 0" "v \<noteq> 0" by auto
    with f have fr: "e \<notin> alloc h" "v \<notin> alloc h" "e \<noteq> v" by auto
    let ?w = "with_element s e v h"
    let ?h1 = "list_add e head ?w" and ?h2 = "list_add_tail e head ?w"
    note w = with_element_fields [OF nz, of s h]
    have dw: "dll ?w head as" and en: "e \<notin> set (head # as)"
      using queue_with_element [OF q fr(1,2) nz] by simp_all
    have d1: "dll ?h1 head ([] @ e # as)" using dll_list_add [OF dw en] by simp
    have d2: "dll ?h2 head (as @ e # [])" using dll_list_add_tail [OF dw en] by simp
    have q1: "queue ?h1 head ([] @ e # as)" "map (val ?h1) ([] @ e # as) = map (val h) [] @ s # map (val h) as"
      by (rule queue_insert [OF q fr nz d1]; simp add: w)+
    have q2: "queue ?h2 head (as @ e # [])" "map (val ?h2) (as @ e # []) = map (val h) as @ s # map (val h) []"
      by (rule queue_insert [OF q fr nz d2]; simp add: w)+
    show ?thesis
      using False absent q1 q2 q_insert_head_ok [OF hz nz, of s h] q_insert_tail_ok [OF hz nz, of s h]
      by (simp add: w)
  qed
qed

theorem q_insert_contract_witness:
  "queue (queue_of [''a'']) 1 [2] \<and>
   (\<exists>h1 h2. q_insert_head 1 ''b'' 4 5 (queue_of [''a'']) = (True, h1) \<and>
      queue h1 1 [4, 2] \<and> map (val h1) [4, 2] = [''b'', ''a''] \<and>
      q_insert_tail 1 ''b'' 4 5 (queue_of [''a'']) = (True, h2) \<and>
      queue h2 1 [2, 4] \<and> map (val h2) [2, 4] = [''a'', ''b'']) \<and>
   (\<exists>h'. q_insert_head 1 ''b'' 4 0 (queue_of [''a'']) = (False, h') \<and>
      q_insert_tail 1 ''b'' 4 0 (queue_of [''a'']) = (False, h') \<and>
      queue h' 1 [2] \<and> alloc h' = alloc (queue_of [''a'']))"
proof -
  have q: "queue (queue_of [''a'']) 1 [2]" by code_simp
  have f: "4 \<notin> alloc (queue_of [''a''])" "5 \<notin> alloc (queue_of [''a''])" by code_simp+
  have v: "map (val (queue_of [''a''])) [2] = [''a'']" by code_simp
  show ?thesis
    using q q_insert_contract [OF q, of 4 5 "''b''"] q_insert_contract [OF q, of 4 0 "''b''"] f v
    by simp blast
qed

section \<open>First in, first out\<close>

lemma q_insert_tail_queue:
  assumes q: "queue h head as" and f: "e \<notin> alloc h" "v \<notin> alloc h" "e \<noteq> v" "e \<noteq> 0" "v \<noteq> 0"
  shows "\<exists>h'. q_insert_tail head s e v h = (True, h') \<and> queue h' head (as @ [e]) \<and>
           map (val h') (as @ [e]) = map (val h) as @ [s] \<and> alloc h' = insert e (insert v (alloc h))"
proof -
  have hz: "head \<noteq> 0" using q by (auto simp: queue_def blocks_def)
  let ?w = "with_element s e v h"
  let ?h = "list_add_tail e head ?w"
  note w = with_element_fields [OF f(4,5), of s h]
  have dw: "dll ?w head as" and en: "e \<notin> set (head # as)"
    using queue_with_element [OF q f(1,2,4,5)] by simp_all
  have d: "dll ?h head (as @ e # [])" using dll_list_add_tail [OF dw en] by simp
  have "queue ?h head (as @ e # [])" "map (val ?h) (as @ e # []) = map (val h) as @ s # map (val h) []"
    by (rule queue_insert [OF q f d]; simp add: w)+
  then show ?thesis using q_insert_tail_ok [OF hz f(4,5), of s h] by (simp add: w)
qed

lemma q_insert_head_queue:
  assumes q: "queue h head as" and f: "e \<notin> alloc h" "v \<notin> alloc h" "e \<noteq> v" "e \<noteq> 0" "v \<noteq> 0"
  shows "\<exists>h'. q_insert_head head s e v h = (True, h') \<and> queue h' head (e # as) \<and>
           map (val h') (e # as) = s # map (val h) as \<and> alloc h' = insert e (insert v (alloc h))"
proof -
  have hz: "head \<noteq> 0" using q by (auto simp: queue_def blocks_def)
  let ?w = "with_element s e v h"
  let ?h = "list_add e head ?w"
  note w = with_element_fields [OF f(4,5), of s h]
  have dw: "dll ?w head as" and en: "e \<notin> set (head # as)"
    using queue_with_element [OF q f(1,2,4,5)] by simp_all
  have d: "dll ?h head ([] @ e # as)" using dll_list_add [OF dw en] by simp
  have "queue ?h head ([] @ e # as)" "map (val ?h) ([] @ e # as) = map (val h) [] @ s # map (val h) as"
    by (rule queue_insert [OF q f d]; simp add: w)+
  then show ?thesis using q_insert_head_ok [OF hz f(4,5), of s h] by (simp add: w)
qed

lemma fresh_Cons:
  "fresh h ((s, e, v) # r) \<Longrightarrow>
   e \<notin> alloc h \<and> v \<notin> alloc h \<and> e \<noteq> v \<and> e \<noteq> 0 \<and> v \<noteq> 0"
  by (auto simp: fresh_def)

lemma fresh_step:
  "fresh h ((s, e, v) # r) \<Longrightarrow> alloc h' = insert e (insert v (alloc h)) \<Longrightarrow> fresh h' r"
  by (auto simp: fresh_def)

lemma insert_tails_queue:
  "queue h head as \<Longrightarrow> fresh h xs \<Longrightarrow>
   \<exists>h'. insert_tails head xs h = (replicate (length xs) True, h') \<and>
        queue h' head (as @ map (\<lambda>x. fst (snd x)) xs) \<and>
        map (val h') (as @ map (\<lambda>x. fst (snd x)) xs) = map (val h) as @ map fst xs"
proof (induction xs arbitrary: h as)
  case Nil
  then show ?case by simp
next
  case (Cons x xs)
  obtain s e v where x: "x = (s, e, v)" by (cases x)
  from Cons.prems(2) have f: "e \<notin> alloc h" "v \<notin> alloc h" "e \<noteq> v" "e \<noteq> 0" "v \<noteq> 0"
    unfolding x using fresh_Cons by blast+
  from q_insert_tail_queue [OF Cons.prems(1) f, of s] obtain h1 where
    h1: "q_insert_tail head s e v h = (True, h1)" "queue h1 head (as @ [e])"
      "map (val h1) (as @ [e]) = map (val h) as @ [s]" "alloc h1 = insert e (insert v (alloc h))"
    by blast
  have "fresh h1 xs" using fresh_step Cons.prems(2) h1(4) unfolding x by blast
  from Cons.IH [OF h1(2) this] obtain h' where
    h': "insert_tails head xs h1 = (replicate (length xs) True, h')"
      "queue h' head ((as @ [e]) @ map (\<lambda>x. fst (snd x)) xs)"
      "map (val h') ((as @ [e]) @ map (\<lambda>x. fst (snd x)) xs) = map (val h1) (as @ [e]) @ map fst xs"
    by blast
  show ?case using h1 h' by (simp add: x)
qed

lemma insert_heads_queue:
  "queue h head as \<Longrightarrow> fresh h xs \<Longrightarrow>
   \<exists>h'. insert_heads head xs h = (replicate (length xs) True, h') \<and>
        queue h' head (rev (map (\<lambda>x. fst (snd x)) xs) @ as) \<and>
        map (val h') (rev (map (\<lambda>x. fst (snd x)) xs) @ as) = rev (map fst xs) @ map (val h) as"
proof (induction xs arbitrary: h as)
  case Nil
  then show ?case by simp
next
  case (Cons x xs)
  obtain s e v where x: "x = (s, e, v)" by (cases x)
  from Cons.prems(2) have f: "e \<notin> alloc h" "v \<notin> alloc h" "e \<noteq> v" "e \<noteq> 0" "v \<noteq> 0"
    unfolding x using fresh_Cons by blast+
  from q_insert_head_queue [OF Cons.prems(1) f, of s] obtain h1 where
    h1: "q_insert_head head s e v h = (True, h1)" "queue h1 head (e # as)"
      "map (val h1) (e # as) = s # map (val h) as" "alloc h1 = insert e (insert v (alloc h))"
    by (elim exE conjE)
  have "fresh h1 xs" using fresh_step Cons.prems(2) h1(4) unfolding x by blast
  from Cons.IH [OF h1(2) this] obtain h' where
    h': "insert_heads head xs h1 = (replicate (length xs) True, h')"
      "queue h' head (rev (map (\<lambda>x. fst (snd x)) xs) @ e # as)"
      "map (val h') (rev (map (\<lambda>x. fst (snd x)) xs) @ e # as) = rev (map fst xs) @ map (val h1) (e # as)"
    by blast
  show ?case using h1 h' by (simp add: x)
qed

lemma queue_nonempty:
  assumes "queue h head (a # as)"
  shows "head \<noteq> 0" "\<not> list_empty head h" "nxt h head = a"
proof -
  have d: "dll h head (a # as)" using assms by (simp add: queue_def)
  show "head \<noteq> 0" using assms by (auto simp: queue_def blocks_def)
  show "nxt h head = a" using dll_nxt_head [OF d] by simp
  then show "\<not> list_empty head h" using d by (auto simp: list_empty_def dll_def)
qed

lemma queue_unlink:
  assumes "queue h head (xs @ x # ys)"
  shows "queue (list_del x h) head (xs @ ys)"
  using assms dll_del [of h head xs x ys]
  by (auto simp: queue_def blocks_def)

lemma q_remove_head_queue:
  assumes "queue h head (a # as)" and "fits sp bufsize"
  shows "\<exists>sp'. q_remove_head head sp bufsize h = Inr (a, sp', list_del a h) \<and> fits sp' bufsize"
    and "queue (list_del a h) head as"
proof -
  note n = queue_nonempty [OF assms(1)]
  show "\<exists>sp'. q_remove_head head sp bufsize h = Inr (a, sp', list_del a h) \<and> fits sp' bufsize"
  proof (cases sp)
    case None
    then show ?thesis using n by (simp add: q_remove_head_def Let_def fits_def)
  next
    case (Some b)
    from copy_out_length [of b bufsize "val h a"] assms(2) Some obtain b' where
      "copy_out b (val h a) bufsize = Inr b'" "length b' = length b" by blast
    then show ?thesis
      using n Some assms(2) by (simp add: q_remove_head_def Let_def fits_def)
  qed
  show "queue (list_del a h) head as"
    using queue_unlink [of h head "[]" a as] assms(1) by simp
qed

lemma remove_heads_queue:
  "queue h head as \<Longrightarrow> n \<le> length as \<Longrightarrow> fits sp bufsize \<Longrightarrow>
   \<exists>h'. remove_heads n head sp bufsize h = Inr (take n as, h') \<and> queue h' head (drop n as) \<and>
        val h' = val h"
proof (induction n arbitrary: h as sp)
  case 0
  then show ?case by simp
next
  case (Suc n)
  then obtain a bs where as: "as = a # bs" by (cases as) auto
  from q_remove_head_queue(1) [OF Suc.prems(1) [unfolded as] Suc.prems(3)]
  obtain sp' where r: "q_remove_head head sp bufsize h = Inr (a, sp', list_del a h)"
    and f: "fits sp' bufsize" by blast
  have q: "queue (list_del a h) head bs"
    using q_remove_head_queue(2) [OF Suc.prems(1) [unfolded as] Suc.prems(3)] .
  from Suc.IH [OF q _ f] Suc.prems(2) as obtain h' where
    "remove_heads n head sp' bufsize (list_del a h) = Inr (take n bs, h')" "queue h' head (drop n bs)"
    "val h' = val (list_del a h)" by auto
  then show ?case using r as by simp
qed

lemma q_new_queue:
  "q \<noteq> 0 \<Longrightarrow> q_new q h = (q, INIT_LIST_HEAD q (malloc q h)) \<and>
     queue (INIT_LIST_HEAD q (malloc q h)) q []"
  by (simp add: q_new_def Let_def queue_def blocks_def dll_def INIT_LIST_HEAD_def malloc_def)

text \<open>C8. From the empty queue that \<^verbatim>\<open>q_new\<close> makes, with allocations that succeed and
  a buffer that holds what the removals write (or none):
  after one \<^verbatim>\<open>q_insert_tail\<close> for each string, as many calls of \<^verbatim>\<open>q_remove_head\<close> return
  elements whose values are the strings in the order of insertion; after one
  \<^verbatim>\<open>q_insert_head\<close> for each string they are the strings in reverse order. Every
  insertion returns true.\<close>

theorem fifo_lifo:
  assumes q: "q \<noteq> 0" and f: "fresh (snd (q_new q h0)) xs" and b: "fits sp bufsize"
  shows "(case q_new q h0 of (head, h) \<Rightarrow>
           (case insert_tails head xs h of (bs, h1) \<Rightarrow>
              bs = replicate (length xs) True \<and>
              (case remove_heads (length xs) head sp bufsize h1 of
                 Inl err \<Rightarrow> False
               | Inr (es, h2) \<Rightarrow> map (val h2) es = map fst xs \<and> queue h2 head [])) \<and>
           (case insert_heads head xs h of (bs, h1) \<Rightarrow>
              bs = replicate (length xs) True \<and>
              (case remove_heads (length xs) head sp bufsize h1 of
                 Inl err \<Rightarrow> False
               | Inr (es, h2) \<Rightarrow> map (val h2) es = rev (map fst xs) \<and> queue h2 head [])))"
proof -
  let ?h = "INIT_LIST_HEAD q (malloc q h0)"
  let ?es = "map (\<lambda>x. fst (snd x)) xs"
  have n: "q_new q h0 = (q, ?h)" and e: "queue ?h q []"
    using q_new_queue [OF q, of h0] by simp_all
  have f': "fresh ?h xs" using f n by simp
  from insert_tails_queue [OF e f'] obtain h1 where
    t: "insert_tails q xs ?h = (replicate (length xs) True, h1)" "queue h1 q ?es"
      "map (val h1) ?es = map fst xs" by auto
  from remove_heads_queue [OF t(2) _ b, of "length xs"] obtain h2 where
    t2: "remove_heads (length xs) q sp bufsize h1 = Inr (?es, h2)" "queue h2 q []" "val h2 = val h1"
    by auto
  from insert_heads_queue [OF e f'] obtain k1 where
    l: "insert_heads q xs ?h = (replicate (length xs) True, k1)" "queue k1 q (rev ?es)"
      "map (val k1) (rev ?es) = rev (map fst xs)" by auto
  from remove_heads_queue [OF l(2) _ b, of "length xs"] obtain k2 where
    l2: "remove_heads (length xs) q sp bufsize k1 = Inr (rev ?es, k2)" "queue k2 q []" "val k2 = val k1"
    by auto
  show ?thesis using n t t2 l l2 by simp
qed

theorem fifo_lifo_witness:
  "fresh (snd (q_new 1 heap0)) [(''a'', 2, 3), (''b'', 4, 5), (''c'', 6, 7)] \<and>
   fits (Some ''xxxx'') (2 :: 64 word) \<and>
   (case q_new 1 heap0 of (head, h) \<Rightarrow>
      (case insert_tails head [(''a'', 2, 3), (''b'', 4, 5), (''c'', 6, 7)] h of (bs, h1) \<Rightarrow>
         bs = replicate (length [(''a'', 2 :: addr, 3 :: addr), (''b'', 4, 5), (''c'', 6, 7)]) True \<and>
         (case remove_heads (length [(''a'', 2 :: addr, 3 :: addr), (''b'', 4, 5), (''c'', 6, 7)])
                  head (Some ''xxxx'') (2 :: 64 word) h1 of
            Inl err \<Rightarrow> False
          | Inr (es, h2) \<Rightarrow>
              map (val h2) es = map fst [(''a'', 2 :: addr, 3 :: addr), (''b'', 4, 5), (''c'', 6, 7)] \<and>
              queue h2 head [])) \<and>
      (case insert_heads head [(''a'', 2, 3), (''b'', 4, 5), (''c'', 6, 7)] h of (bs, h1) \<Rightarrow>
         bs = replicate (length [(''a'', 2 :: addr, 3 :: addr), (''b'', 4, 5), (''c'', 6, 7)]) True \<and>
         (case remove_heads (length [(''a'', 2 :: addr, 3 :: addr), (''b'', 4, 5), (''c'', 6, 7)])
                  head (Some ''xxxx'') (2 :: 64 word) h1 of
            Inl err \<Rightarrow> False
          | Inr (es, h2) \<Rightarrow>
              map (val h2) es = rev (map fst [(''a'', 2 :: addr, 3 :: addr), (''b'', 4, 5), (''c'', 6, 7)]) \<and>
              queue h2 head [])))"
proof -
  have a: "(1 :: addr) \<noteq> 0" by simp
  have b: "fresh (snd (q_new 1 heap0)) [(''a'', 2, 3), (''b'', 4, 5), (''c'', 6, 7)]"
    by code_simp
  have c: "fits (Some ''xxxx'') (2 :: 64 word)" by (simp add: fits_def)
  show ?thesis by (intro conjI b c fifo_lifo [OF a b c])
qed

section \<open>Reversal\<close>

lemma exchanged_twice: "set ms = set ns \<Longrightarrow> exchanged ms (exchanged ns h) = h"
  by (simp add: exchanged_def fun_eq_iff)

lemma exchanged_fields [simp]:
  "e_value (exchanged ns h) = e_value h" "str (exchanged ns h) = str h"
  "alloc (exchanged ns h) = alloc h" "val (exchanged ns h) = val h"
  by (simp_all add: exchanged_def val_def fun_eq_iff)

lemma path_frame:
  "\<forall>a\<in>set (butlast cs). f' a = f a \<Longrightarrow>
   successively (\<lambda>a b. f' a = (b :: addr)) cs = successively (\<lambda>a b. f a = b) (cs :: addr list)"
  by (induction cs rule: induct_list012) auto

lemma reverse_loop_path:
  "ns \<noteq> [] \<Longrightarrow> distinct ns \<Longrightarrow> head \<notin> set (tl ns) \<Longrightarrow>
   successively (\<lambda>a b. nxt h a = b) (ns @ [head]) \<Longrightarrow>
   reverse_loop head (hd ns) h = Some (exchanged ns h)"
proof (induction ns arbitrary: h rule: induct_list012)
  case 1
  then show ?case by simp
next
  case (2 n)
  then have "nxt h n = head" by simp
  then show ?case
    by (subst reverse_loop.simps) (simp add: Let_def exchanged_def fun_eq_iff)
next
  case (3 n m rest)
  let ?h = "h\<lparr>nxt := (nxt h)(n := prv h n), prv := (prv h)(n := nxt h n)\<rparr>"
  from 3 have t: "nxt h n = m" "m \<noteq> head" "n \<noteq> m" "n \<notin> set rest" by auto
  have "successively (\<lambda>a b. nxt ?h a = b) ((m # rest) @ [head])
      = successively (\<lambda>a b. nxt h a = b) ((m # rest) @ [head])"
    using t by (intro path_frame) auto
  then have p: "successively (\<lambda>a b. nxt ?h a = b) ((m # rest) @ [head])"
    using 3(6) by simp
  have "reverse_loop head (hd (m # rest)) ?h = Some (exchanged (m # rest) ?h)"
    using 3(2) [OF _ _ _ p] 3(4,5) by simp
  moreover have "exchanged (m # rest) ?h = exchanged (n # m # rest) h"
    using t by (auto simp: exchanged_def fun_eq_iff)
  ultimately show ?case
    using t by (subst reverse_loop.simps) (simp add: Let_def)
qed

lemma links_next: "links h cs \<Longrightarrow> successively (\<lambda>a b. nxt h a = b) cs"
  unfolding links_def by (erule successively_mono) simp

lemma q_reverse_exchanged:
  assumes d: "dll h head as" and z: "head \<noteq> 0"
  shows "q_reverse head h = Some (exchanged (head # as) h)"
proof (cases as)
  case Nil
  with d have "nxt h head = head" "prv h head = head" by (simp_all add: dll_def)
  then have "exchanged [head] h = h" by (simp add: exchanged_def fun_eq_iff)
  then show ?thesis using Nil z \<open>nxt h head = head\<close>
    by (simp add: q_reverse_def list_empty_def)
next
  case (Cons a bs)
  with d have ne: "\<not> list_empty head h"
    using dll_nxt_head [OF d] by (auto simp: list_empty_def dll_def)
  have "successively (\<lambda>a b. nxt h a = b) ((head # as) @ [head])"
    using d links_next [of h "head # as @ [head]"] by (simp add: dll_def)
  then have "reverse_loop head (hd (head # as)) h = Some (exchanged (head # as) h)"
    using d by (intro reverse_loop_path) (auto simp: dll_def)
  then show ?thesis using ne z by (simp add: q_reverse_def)
qed

lemma dll_exchanged:
  assumes d: "dll h head as"
  shows "dll (exchanged (head # as) h) head (rev as)"
proof -
  let ?h = "exchanged (head # as) h"
  have "links ?h (rev (head # as @ [head]))
      = successively (\<lambda>b a. nxt ?h a = b \<and> prv ?h b = a) (head # as @ [head])"
    unfolding links_def by (simp only: successively_rev)
  also have "\<dots> = successively (\<lambda>a b. nxt h a = b \<and> prv h b = a) (head # as @ [head])"
    by (intro successively_cong) (auto simp: exchanged_def)
  finally have "links ?h (rev (head # as @ [head]))" using d by (simp add: dll_def links_def)
  then show ?thesis using d by (simp add: dll_def)
qed


text \<open>C9. On a circular list with sentinel \<open>head\<close> and nodes \<open>as\<close>, \<^verbatim>\<open>q_reverse\<close> returns;
  in the heap it returns, \<^verbatim>\<open>next\<close> and \<^verbatim>\<open>prev\<close> are exchanged on the sentinel and on
  every node and nothing else is changed (no link of another node, no element, string
  or allocation); the forward traversal reads the nodes, and so the values, in reverse
  order; a second \<^verbatim>\<open>q_reverse\<close> gives back the heap before the first. With an absent
  handle, and on the empty list, the heap is returned as it is.\<close>

theorem q_reverse_twice:
  assumes d: "dll h head as" and z: "head \<noteq> 0"
  shows "\<exists>h1. q_reverse head h = Some h1 \<and> dll h1 head (rev as) \<and>
           (\<forall>a. nxt h1 a = (if a \<in> set (head # as) then prv h a else nxt h a) \<and>
                prv h1 a = (if a \<in> set (head # as) then nxt h a else prv h a)) \<and>
           e_value h1 = e_value h \<and> str h1 = str h \<and> alloc h1 = alloc h \<and>
           map (val h1) (rev as) = rev (map (val h) as) \<and>
           q_reverse head h1 = Some h \<and>
           (if as = [] then h1 = h else True) \<and>
           q_reverse 0 h = Some h"
proof -
  let ?h = "exchanged (head # as) h"
  have 1: "q_reverse head h = Some ?h" using q_reverse_exchanged [OF d z] .
  have 2: "dll ?h head (rev as)" using dll_exchanged [OF d] .
  have "q_reverse head ?h = Some (exchanged (head # rev as) ?h)"
    using q_reverse_exchanged [OF 2 z] .
  then have 3: "q_reverse head ?h = Some h" by (simp add: exchanged_twice)
  have "as = [] \<Longrightarrow> ?h = h"
    using d by (simp add: exchanged_def dll_def fun_eq_iff)
  then have 4: "if as = [] then ?h = h else True" by simp
  have 5: "q_reverse 0 h = Some h" by (simp add: q_reverse_def)
  have 6: "\<forall>a. nxt ?h a = (if a \<in> set (head # as) then prv h a else nxt h a) \<and>
                prv ?h a = (if a \<in> set (head # as) then nxt h a else prv h a)"
    by (simp add: exchanged_def)
  have 7: "e_value ?h = e_value h \<and> str ?h = str h \<and> alloc ?h = alloc h" by simp
  have 8: "map (val ?h) (rev as) = rev (map (val h) as)" by (simp add: rev_map)
  show ?thesis using 1 2 3 4 5 6 7 8 by blast
qed

theorem q_reverse_twice_witness:
  "dll (queue_of [''1'', ''2'', ''3'']) 1 [2, 4, 6] \<and>
   (\<exists>h1. q_reverse 1 (queue_of [''1'', ''2'', ''3'']) = Some h1 \<and>
      dll h1 1 [6, 4, 2] \<and> map (val h1) [6, 4, 2] = [''3'', ''2'', ''1''] \<and>
      q_reverse 1 h1 = Some (queue_of [''1'', ''2'', ''3'']))"
proof -
  have d: "dll (queue_of [''1'', ''2'', ''3'']) 1 [2, 4, 6]" by code_simp
  have z: "(1 :: addr) \<noteq> 0" by simp
  have v: "map (val (queue_of [''1'', ''2'', ''3''])) [2, 4, 6] = [''1'', ''2'', ''3'']"
    by code_simp
  from q_reverse_twice [OF d z] obtain h1 where
    "q_reverse 1 (queue_of [''1'', ''2'', ''3'']) = Some h1" "dll h1 1 (rev [2, 4, 6])"
    "map (val h1) (rev [2, 4, 6]) = rev (map (val (queue_of [''1'', ''2'', ''3''])) [2, 4, 6])"
    "q_reverse 1 h1 = Some (queue_of [''1'', ''2'', ''3''])"
    by blast
  then show ?thesis using d v by simp
qed

section \<open>Deleting duplicates\<close>

lemma q_release_fields [simp]:
  "nxt (q_release_element e h) = nxt h" "prv (q_release_element e h) = prv h"
  "e_value (q_release_element e h) = e_value h" "str (q_release_element e h) = str h"
  "alloc (q_release_element e h) = alloc h - {e, e_value h e}"
  "val (q_release_element e h) = val h"
  by (auto simp: q_release_element_def free_def val_def fun_eq_iff)

lemma queue_alt: "queue h head as = (dll h head as \<and> owned h head (set as))"
proof -
  have "distinct (head # as) \<Longrightarrow>
    distinct (blocks h head as) = (inj_on (e_value h) (set as) \<and> e_value h ` set as \<inter> insert head (set as) = {})"
    unfolding blocks_def by (simp add: distinct_map) blast
  moreover have "set (blocks h head as) = insert head (set as \<union> e_value h ` set as)"
    unfolding blocks_def by simp
  ultimately show ?thesis
    unfolding queue_def owned_def dll_def by auto
qed

lemma owned_release:
  assumes "owned h head S" "x \<in> S" "e_value h' = e_value h" "alloc h' = alloc h - {x, e_value h x}"
  shows "owned h' head (S - {x})"
proof -
  have i: "inj_on (e_value h) S" and d: "e_value h ` S \<inter> insert head S = {}"
    and hd: "head \<notin> S"
    using assms(1) by (simp_all add: owned_def)
  have 1: "e_value h x \<notin> e_value h ` (S - {x})"
    using i assms(2) by (auto simp: inj_on_def)
  have 2: "e_value h x \<notin> insert head S" "x \<notin> e_value h ` S" "x \<noteq> head"
    using d hd assms(2) by auto
  have 3: "inj_on (e_value h) (S - {x})" using i by (rule inj_on_diff)
  show ?thesis
    unfolding owned_def assms(3,4) using assms(1) 1 2 3
    by (simp add: owned_def) blast
qed

lemma queue_delete:
  assumes "queue h head (xs @ x # ys)"
  shows "queue (q_release_element x (list_del x h)) head (xs @ ys)"
proof -
  let ?h = "q_release_element x (list_del x h)"
  have q: "dll h head (xs @ x # ys)" "owned h head (set (xs @ x # ys))"
    using assms by (simp_all add: queue_alt)
  have "dll (list_del x h) head (xs @ ys)" using dll_del [OF q(1)] .
  then have d: "dll ?h head (xs @ ys)"
    using dll_fields_cong [of ?h "list_del x h" head "xs @ ys"] by simp
  have "set (xs @ ys) = set (xs @ x # ys) - {x}"
    using q(1) by (auto simp: dll_def)
  moreover have "owned ?h head (set (xs @ x # ys) - {x})"
    by (rule owned_release [OF q(2)]) simp_all
  ultimately show ?thesis using d by (simp add: queue_alt)
qed

lemma dedup_subset: "set (dedup f d as) \<subseteq> set as"
  by (induction f d as rule: dedup.induct) auto

lemma blocks_of_simps [simp]:
  "blocks_of h [] = {}"
  "blocks_of h (a # as) = insert a (insert (e_value h a) (blocks_of h as))"
  by (auto simp: blocks_of_def)

lemma blocks_of_cong: "e_value h' = e_value h \<Longrightarrow> blocks_of h' as = blocks_of h as"
  by (simp add: blocks_of_def)

lemma dup_loop_queue:
  "queue h head (pre @ l # rest) \<Longrightarrow> (d \<Longrightarrow> b0 = l) \<Longrightarrow>
   \<exists>r. dup_loop head l b0 d h = Some r \<and>
       dup_post h head pre (l # rest) (dedup (val h) d (l # rest)) (dup_finish r)"
proof (induction rest arbitrary: pre l d b0 h)
  case Nil
  then have d: "dll h head (pre @ l # [])" by (simp add: queue_def)
  have n: "nxt h l = head" using dll_nxt [OF d] by simp
  have r: "dup_loop head l b0 d h = Some (b0, d, h)"
    by (subst dup_loop.simps) (simp add: n)
  show ?case
  proof (cases d)
    case True
    then have "b0 = l" using Nil by simp
    then have "dup_post h head pre [l] [] (dup_finish (b0, d, h))"
      using True queue_delete [OF Nil(1)] by (simp add: dup_post_def dup_finish_def insert_commute)
    then show ?thesis using r True by simp
  next
    case False
    then have "dup_post h head pre [l] [l] (dup_finish (b0, d, h))"
      using Nil(1) by (simp add: dup_post_def dup_finish_def)
    then show ?thesis using r False by simp
  qed
next
  case (Cons c rest)
  have q: "queue h head (pre @ l # c # rest)" using Cons.prems(1) .
  then have dl: "dll h head (pre @ l # c # rest)" by (simp add: queue_def)
  have n: "nxt h l = c" using dll_nxt [OF dl] by simp
  have ch: "c \<noteq> head" "l \<noteq> c" "l \<notin> set rest" "c \<notin> set rest" using dl by (auto simp: dll_def)
  show ?case
  proof (cases "strcmp (val h l) (val h c) = 0")
    case True
    let ?h = "q_release_element c (list_del c h)"
    let ?res = "dedup (val h) True (l # rest)"
    have q1: "queue ?h head (pre @ l # rest)"
      using queue_delete [of h head "pre @ [l]" c rest] q by simp
    from Cons.IH [OF q1, of True l] obtain r where
      r: "dup_loop head l l True ?h = Some r"
        "dup_post ?h head pre (l # rest) ?res (dup_finish r)"
      by auto
    have s: "dup_loop head l b0 d h = dup_loop head l l True ?h"
      using True n ch by (subst dup_loop.simps) (simp add: Let_def)
    have cn: "c \<notin> set ?res"
      using dedup_subset [of "val h" True "l # rest"] ch by auto
    have "alloc ?h - blocks_of h (filter (\<lambda>a. a \<notin> set ?res) (l # rest))
        = alloc h - blocks_of h (filter (\<lambda>a. a \<notin> set ?res) (l # c # rest))"
      using cn by auto
    then have "dup_post h head pre (l # c # rest) ?res (dup_finish r)"
      using r(2) by (simp add: dup_post_def blocks_of_cong [of ?h h])
    then show ?thesis using r(1) s True by simp
  next
    case False
    show ?thesis
    proof (cases d)
      case True
      then have b: "b0 = l" using Cons.prems(2) by simp
      let ?h = "q_release_element l (list_del l h)"
      let ?res = "dedup (val h) False (c # rest)"
      have q1: "queue ?h head (pre @ c # rest)"
        using queue_delete [of h head pre l "c # rest"] q by simp
      from Cons.IH [OF q1, of False l] obtain r where
        r: "dup_loop head c l False ?h = Some r"
          "dup_post ?h head pre (c # rest) ?res (dup_finish r)"
        by auto
      have s: "dup_loop head l b0 d h = dup_loop head c l False ?h"
        using False True n ch by (subst dup_loop.simps) (simp add: Let_def)
      have ln: "l \<notin> set ?res"
        using dedup_subset [of "val h" False "c # rest"] ch by auto
      have "alloc ?h - blocks_of h (filter (\<lambda>a. a \<notin> set ?res) (c # rest))
          = alloc h - blocks_of h (filter (\<lambda>a. a \<notin> set ?res) (l # c # rest))"
        using ln by auto
      then have "dup_post h head pre (l # c # rest) ?res (dup_finish r)"
        using r(2) by (simp add: dup_post_def blocks_of_cong [of ?h h])
      then show ?thesis using r(1) s False True by simp
    next
      case nd: False
      let ?res = "dedup (val h) False (c # rest)"
      have q1: "queue h head ((pre @ [l]) @ c # rest)" using q by simp
      from Cons.IH [OF q1, of False l] obtain r where
        r: "dup_loop head c l False h = Some r"
          "dup_post h head (pre @ [l]) (c # rest) ?res (dup_finish r)"
        by auto
      have s: "dup_loop head l b0 d h = dup_loop head c l False h"
        using False nd n ch by (subst dup_loop.simps) (simp add: Let_def)
      have "filter (\<lambda>a. a \<notin> set (l # ?res)) (l # c # rest) = filter (\<lambda>a. a \<notin> set ?res) (c # rest)"
        using ch by (auto intro: filter_cong)
      then have "dup_post h head pre (l # c # rest) (l # ?res) (dup_finish r)"
        using r(2) by (simp add: dup_post_def)
      then show ?thesis using r(1) s False nd by simp
    qed
  qed
qed

lemma of_char_zero: "(of_char c = (0 :: nat)) = (c = CHR 0x00)"
  using of_char_eq_iff [of c "CHR 0x00", where 'a = nat] by simp

lemma strcmp_eq_0: "c_string s \<Longrightarrow> c_string t \<Longrightarrow> (strcmp s t = 0) = (s = t)"
  by (induction s t rule: strcmp.induct) (auto simp: c_string_def of_char_zero)

lemma strcmp_swap: "strcmp t s = - strcmp s t"
  by (induction s t rule: strcmp.induct) auto

lemma dedup_run:
  assumes "\<forall>a\<in>set (x # ys). c_string (f a)"
  shows "dedup f d (x # ys) =
     (if d \<or> takeWhile (\<lambda>y. f y = f x) ys \<noteq> [] then [] else [x]) @
     dedup f False (dropWhile (\<lambda>y. f y = f x) ys)"
  using assms
proof (induction ys arbitrary: d)
  case Nil
  then show ?case by simp
next
  case (Cons y ys)
  then have e: "(strcmp (f x) (f y) = 0) = (f x = f y)" by (simp add: strcmp_eq_0)
  show ?case
  proof (cases "f x = f y")
    case True
    then show ?thesis using Cons e by simp
  next
    case False
    then show ?thesis using e by auto
  qed
qed

lemma sorted_run_apart:
  assumes c: "\<forall>a\<in>set (x # ys). c_string (f a)"
    and s: "sorted_wrt (\<lambda>a b. strcmp (f a) (f b) \<le> 0) (x # ys)"
    and w: "w \<in> set (dropWhile (\<lambda>y. f y = f x) ys)"
  shows "f w \<noteq> f x"
proof
  assume eq: "f w = f x"
  let ?D = "dropWhile (\<lambda>y. f y = f x) ys"
  from w obtain z D' where D: "?D = z # D'" by (cases ?D) auto
  have zx: "f z \<noteq> f x" using hd_dropWhile [of "\<lambda>y. f y = f x" ys] D by simp
  have zin: "z \<in> set ys" using D set_dropWhileD [of z "\<lambda>y. f y = f x" ys] by simp
  have sD: "sorted_wrt (\<lambda>a b. strcmp (f a) (f b) \<le> 0) (z # D')"
    using s D sorted_wrt_append [of _ "takeWhile (\<lambda>y. f y = f x) ys" ?D]
      takeWhile_dropWhile_id [of "\<lambda>y. f y = f x" ys] by (metis sorted_wrt.simps(2))
  have xz: "strcmp (f x) (f z) \<le> 0" using s zin by simp
  have "w \<noteq> z" using eq zx by auto
  then have "w \<in> set D'" using w D by simp
  then have "strcmp (f z) (f w) \<le> 0" using sD by simp
  then have "strcmp (f x) (f z) = 0" using xz eq strcmp_swap [of "f z" "f x"] by simp
  then have "f x = f z" using c zin by (simp add: strcmp_eq_0)
  then show False using zx by simp
qed

lemma count_list_all: "\<forall>y\<in>set xs. f y = k \<Longrightarrow> count_list (map f xs) k = length xs"
  by (induction xs) auto

lemma count_list_none: "\<forall>y\<in>set xs. f y \<noteq> k \<Longrightarrow> count_list (map f xs) k = 0"
  by (induction xs) auto

lemma dedup_sorted:
  "\<forall>a\<in>set as. c_string (f a) \<Longrightarrow> sorted_wrt (\<lambda>a b. strcmp (f a) (f b) \<le> 0) as \<Longrightarrow>
   dedup f False as = filter (\<lambda>a. count_list (map f as) (f a) = 1) as"
proof (induction "length as" arbitrary: as rule: less_induct)
  case less
  show ?case
  proof (cases as)
    case Nil
    then show ?thesis by simp
  next
    case (Cons x ys)
    define T where "T = takeWhile (\<lambda>y. f y = f x) ys"
    define D where "D = dropWhile (\<lambda>y. f y = f x) ys"
    have ys: "ys = T @ D" by (simp add: T_def D_def)
    have c: "\<forall>a\<in>set (x # ys). c_string (f a)" using less.prems(1) Cons by simp
    have s: "sorted_wrt (\<lambda>a b. strcmp (f a) (f b) \<le> 0) (x # ys)" using less.prems(2) Cons by simp
    have T: "\<forall>y\<in>set T. f y = f x"
      unfolding T_def using set_takeWhileD [of _ "\<lambda>y. f y = f x" ys] by blast
    have D: "\<forall>w\<in>set D. f w \<noteq> f x"
    proof
      fix w assume "w \<in> set D"
      then show "f w \<noteq> f x" unfolding D_def by (rule sorted_run_apart [OF c s])
    qed
    have cT: "count_list (map f T) (f x) = length T"
      using T by (rule count_list_all)
    have cD: "count_list (map f D) (f x) = 0"
      using D by (rule count_list_none)
    have cx: "count_list (map f (x # T @ D)) (f x) = Suc (length T)"
      by (simp add: cT cD)
    have cw: "count_list (map f (x # T @ D)) (f w) = count_list (map f D) (f w)" if "w \<in> set D" for w
    proof -
      have "f w \<noteq> f x" using D that by blast
      moreover from this have "count_list (map f T) (f w) = 0"
        using T by (intro count_list_none) auto
      ultimately show ?thesis by simp
    qed
    have fT: "filter (\<lambda>a. count_list (map f (x # T @ D)) (f a) = 1) T = []"
      using T cx by (auto simp: filter_empty_conv)
    have fD: "filter (\<lambda>a. count_list (map f (x # T @ D)) (f a) = 1) D
            = filter (\<lambda>a. count_list (map f D) (f a) = 1) D"
      using cw by (intro filter_cong) auto
    have len: "length D < length as"
      using Cons ys by simp
    have sD: "sorted_wrt (\<lambda>a b. strcmp (f a) (f b) \<le> 0) D"
      using s sorted_wrt_append [of _ T D] by (simp add: ys)
    have cDs: "\<forall>a\<in>set D. c_string (f a)"
      using c by (simp add: ys)
    have IH: "dedup f False D = filter (\<lambda>a. count_list (map f D) (f a) = 1) D"
      using less.hyps [OF len cDs sD] .
    have "filter (\<lambda>a. count_list (map f (x # T @ D)) (f a) = 1) (x # T @ D)
        = (if T \<noteq> [] then [] else [x]) @ filter (\<lambda>a. count_list (map f D) (f a) = 1) D"
      unfolding filter.simps filter_append fT fD using cx by simp
    moreover have "dedup f False (x # ys) = (if T \<noteq> [] then [] else [x]) @ dedup f False D"
      using dedup_run [OF c, of False] by (simp add: T_def D_def)
    ultimately show ?thesis using IH Cons by (simp add: ys)
  qed
qed

text \<open>C3. On a queue whose values are C strings in ascending order, \<^verbatim>\<open>q_delete_dup\<close>
  returns true; the elements left, in their order, are exactly those whose value occurs
  once in the list; every other element is unlinked and its two blocks are released,
  and nothing else is released. On the empty list the heap is unchanged. With an absent
  handle the result is false.\<close>

theorem q_delete_dup_sorted:
  assumes q: "queue h head as"
    and c: "\<forall>a\<in>set as. c_string (val h a)"
    and s: "ascending (map (val h) as)"
  shows "\<exists>h'. q_delete_dup head h = Some (True, h') \<and>
           queue h' head (filter (\<lambda>a. count_list (map (val h) as) (val h a) = 1) as) \<and>
           val h' = val h \<and>
           alloc h' = alloc h -
             blocks_of h (filter (\<lambda>a. count_list (map (val h) as) (val h a) \<noteq> 1) as) \<and>
           (if as = [] then h' = h else True) \<and>
           q_delete_dup 0 h = Some (False, h)"
proof -
  have z: "head \<noteq> 0" using q by (auto simp: queue_def blocks_def)
  have a: "q_delete_dup 0 h = Some (False, h)" by (simp add: q_delete_dup_def)
  show ?thesis
  proof (cases as)
    case Nil
    then have "nxt h head = head" using q by (simp add: queue_def dll_def)
    then have "dup_loop head (nxt h head) 0 False h = Some (0, False, h)"
      by (subst dup_loop.simps) simp
    then have "q_delete_dup head h = Some (True, h)" using z by (simp add: q_delete_dup_def)
    then show ?thesis using Nil q a by simp
  next
    case (Cons l rest)
    let ?res = "filter (\<lambda>a. count_list (map (val h) as) (val h a) = 1) as"
    have n: "nxt h head = l" using q dll_nxt_head [of h head as] Cons by (simp add: queue_def)
    have "sorted_wrt (\<lambda>a b. strcmp (val h a) (val h b) \<le> 0) as"
      using s by (simp add: ascending_def sorted_wrt_map)
    then have r: "dedup (val h) False as = ?res" using dedup_sorted [OF c] by simp
    from dup_loop_queue [of h head "[]" l rest False 0] q Cons obtain x where
      x: "dup_loop head l 0 False h = Some x"
        "dup_post h head [] as (dedup (val h) False as) (dup_finish x)"
      by auto
    have f: "filter (\<lambda>a. a \<notin> set ?res) as
           = filter (\<lambda>a. count_list (map (val h) as) (val h a) \<noteq> 1) as"
      by (intro filter_cong) auto
    have "q_delete_dup head h = Some (True, dup_finish x)"
      using z n x(1) by (cases x) (simp add: q_delete_dup_def dup_finish_def)
    then show ?thesis using x(2) a Cons unfolding r dup_post_def f by simp
  qed
qed

theorem q_delete_dup_sorted_witness:
  "queue (queue_of [''a'', ''a'', ''b'', ''b'', ''c'']) 1 [2, 4, 6, 8, 10] \<and>
   map (val (queue_of [''a'', ''a'', ''b'', ''b'', ''c''])) [2, 4, 6, 8, 10] =
     [''a'', ''a'', ''b'', ''b'', ''c''] \<and>
   (\<exists>h'. q_delete_dup 1 (queue_of [''a'', ''a'', ''b'', ''b'', ''c'']) = Some (True, h') \<and>
      queue h' 1 [10] \<and> map (val h') [10] = [''c''] \<and> alloc h' = {1, 10, 11})"
proof -
  let ?h = "queue_of [''a'', ''a'', ''b'', ''b'', ''c'']"
  have q: "queue ?h 1 [2, 4, 6, 8, 10]" by code_simp
  have c: "\<forall>a\<in>set [2, 4, 6, 8, 10]. c_string (val ?h a)" by code_simp
  have v: "map (val ?h) [2, 4, 6, 8, 10] = [''a'', ''a'', ''b'', ''b'', ''c'']" by code_simp
  have s: "ascending (map (val ?h) [2, 4, 6, 8, 10])" by code_simp
  have k: "filter (\<lambda>a. count_list (map (val ?h) [2, 4, 6, 8, 10]) (val ?h a) = 1) [2, 4, 6, 8, 10] = [10]"
    by code_simp
  have g: "alloc ?h - blocks_of ?h
      (filter (\<lambda>a. count_list (map (val ?h) [2, 4, 6, 8, 10]) (val ?h a) \<noteq> 1) [2, 4, 6, 8, 10]) = {1, 10, 11}"
    by code_simp
  have w: "val ?h 10 = ''c''" by code_simp
  from q_delete_dup_sorted [OF q c s] obtain h' where
    "q_delete_dup 1 ?h = Some (True, h')" "queue h' 1 [10]" "val h' = val ?h" "alloc h' = {1, 10, 11}"
    unfolding k g by blast
  then show ?thesis using q v w by auto
qed

section \<open>The partition sort: lemmas\<close>

declare partition_loop.simps [code] list_qsort.simps [code]

lemma same_links_refl [simp]: "same_links h h S"
  by (simp add: same_links_def)

lemma same_links_trans:
  "same_links h h1 S \<Longrightarrow> same_links h1 h2 S \<Longrightarrow> same_links h h2 S"
  by (simp add: same_links_def)

lemma same_links_mono: "same_links h h' S \<Longrightarrow> T \<subseteq> S \<Longrightarrow> same_links h h' T"
  by (auto simp: same_links_def)

lemma same_data_refl [simp]: "same_data h h"
  by (simp add: same_data_def)

lemma same_data_trans: "same_data h h1 \<Longrightarrow> same_data h1 h2 \<Longrightarrow> same_data h h2"
  by (simp add: same_data_def)

lemma same_data_val: "same_data h h' \<Longrightarrow> val h' = val h"
  by (simp add: same_data_def val_def fun_eq_iff)

lemma dll_frame:
  assumes "dll h l as" "same_links h h' (set (l # as))"
  shows "dll h' l as"
proof -
  have "links h' (l # as @ [l]) = links h (l # as @ [l])"
    using assms(2) by (intro links_frame) (auto simp: same_links_def dest: in_set_butlastD)
  then show ?thesis using assms(1) by (simp add: dll_def)
qed

lemma dll_last_in: "last (head # xs) \<in> set (head # xs)"
  using last_in_set [of "head # xs"] by blast

lemma dll_hd_in: "hd (ys @ [head]) \<in> set (head # ys)"
  by (cases ys) auto

lemma list_del_links:
  assumes "dll h head (xs @ x # ys)"
  shows "same_links h (list_del x h) (- set (head # xs @ ys))"
proof -
  have "nxt h x = hd (ys @ [head])" "prv h x = last (head # xs)"
    using dll_nxt [OF assms] dll_prv [OF assms] by simp_all
  then have "nxt (list_del x h) = (nxt h)(last (head # xs) := hd (ys @ [head]))"
    "prv (list_del x h) = (prv h)(hd (ys @ [head]) := last (head # xs))"
    by (simp_all add: list_del_def Let_def)
  then show ?thesis
    using dll_last_in [of head xs] dll_hd_in [of ys head]
    unfolding same_links_def by (auto simp del: last.simps)
qed

lemma list_add_links:
  assumes "dll h head (xs @ ys)"
  shows "same_links h (list_add e (last (head # xs)) h) (- set (e # head # xs @ ys))"
proof -
  define p where "p = last (head # xs)"
  have l: "links h ((head # xs) @ (ys @ [head]))" using assms by (simp add: dll_def)
  have "nxt h p = hd (ys @ [head])"
    unfolding p_def using l links_app [of "head # xs" "ys @ [head]" h] by simp
  then have "nxt (list_add e p h) = (nxt h)(e := hd (ys @ [head]), p := e)"
    "prv (list_add e p h) = (prv h)(hd (ys @ [head]) := e, e := p)"
    by (simp_all add: list_add_def Let_def)
  moreover have "p \<in> set (head # xs)" unfolding p_def by (rule dll_last_in)
  ultimately have "same_links h (list_add e p h) (- set (e # head # xs @ ys))"
    using dll_hd_in [of ys head] unfolding same_links_def by auto
  then show ?thesis by (simp add: p_def)
qed

lemma list_add_tail_links:
  assumes "dll h head as" "e \<notin> set (head # as)"
  shows "same_links h (list_add_tail e head h) (- set (e # head # as))"
  using list_add_links [of h head as "[]" e] list_add_tail_eq [of h head as "[]" e] assms
  by simp

lemma list_add_head_links:
  assumes "dll h head as"
  shows "same_links h (list_add e head h) (- set (e # head # as))"
  using list_add_links [of h head "[]" as e] assms by simp

lemma same_data_prims [simp]:
  "same_data h (list_del x h)" "same_data h (list_add e p h)" "same_data h (list_add_tail e p h)"
  "same_data h (INIT_LIST_HEAD p h)" "same_data h (list_splice l p h)"
  "same_data h (list_splice_tail l p h)"
  by (simp_all add: same_data_def INIT_LIST_HEAD_def list_splice_def list_splice_tail_def Let_def)

lemma move_two:
  assumes A: "dll h A (x # xs)" and B: "dll h B ys"
    and dis: "set (A # x # xs) \<inter> set (B # ys) = {}"
  shows "dll (list_move_tail x B h) A xs \<and> dll (list_move_tail x B h) B (ys @ [x]) \<and>
         same_links h (list_move_tail x B h) (- (set (A # x # xs) \<union> set (B # ys))) \<and>
         same_data h (list_move_tail x B h)"
    and "dll (list_move x B h) A xs \<and> dll (list_move x B h) B (x # ys) \<and>
         same_links h (list_move x B h) (- (set (A # x # xs) \<union> set (B # ys))) \<and>
         same_data h (list_move x B h)"
proof -
  let ?h1 = "list_del x h"
  have xA: "x \<notin> set (A # xs)" using A by (auto simp: dll_def)
  have xB: "x \<notin> set (B # ys)" using dis by auto
  have A1: "dll ?h1 A xs" using dll_del [of h A "[]" x xs] A by simp
  have l1: "same_links h ?h1 (- set (A # xs))" using list_del_links [of h A "[]" x xs] A by simp
  then have "same_links h ?h1 (set (B # ys))"
    using dis by (auto intro: same_links_mono)
  then have B1: "dll ?h1 B ys" using dll_frame [OF B] by simp
  {
    let ?h2 = "list_add_tail x B ?h1"
    have B2: "dll ?h2 B (ys @ [x])" using dll_list_add_tail [OF B1 xB] .
    have l2: "same_links ?h1 ?h2 (- set (x # B # ys))" using list_add_tail_links [OF B1 xB] .
    then have "same_links ?h1 ?h2 (set (A # xs))"
      using dis xA by (auto intro: same_links_mono)
    then have A2: "dll ?h2 A xs" using dll_frame [OF A1] by simp
    have "same_links h ?h2 (- (set (A # x # xs) \<union> set (B # ys)))"
      by (rule same_links_trans [OF same_links_mono [OF l1] same_links_mono [OF l2]]) auto
    then show "dll (list_move_tail x B h) A xs \<and> dll (list_move_tail x B h) B (ys @ [x]) \<and>
         same_links h (list_move_tail x B h) (- (set (A # x # xs) \<union> set (B # ys))) \<and>
         same_data h (list_move_tail x B h)"
      using A2 B2 same_data_trans [of h ?h1 ?h2] by (simp add: list_move_tail_def)
  }
  {
    let ?h2 = "list_add x B ?h1"
    have B2: "dll ?h2 B (x # ys)" using dll_list_add [OF B1 xB] .
    have l2: "same_links ?h1 ?h2 (- set (x # B # ys))" using list_add_head_links [OF B1] .
    then have "same_links ?h1 ?h2 (set (A # xs))"
      using dis xA by (auto intro: same_links_mono)
    then have A2: "dll ?h2 A xs" using dll_frame [OF A1] by simp
    have "same_links h ?h2 (- (set (A # x # xs) \<union> set (B # ys)))"
      by (rule same_links_trans [OF same_links_mono [OF l1] same_links_mono [OF l2]]) auto
    then show "dll (list_move x B h) A xs \<and> dll (list_move x B h) B (x # ys) \<and>
         same_links h (list_move x B h) (- (set (A # x # xs) \<union> set (B # ys))) \<and>
         same_data h (list_move x B h)"
      using A2 B2 same_data_trans [of h ?h1 ?h2] by (simp add: list_move_def)
  }
qed

lemma dll_other:
  "dll h C cs \<Longrightarrow> same_links h h' (- S) \<Longrightarrow> set (C # cs) \<inter> S = {} \<Longrightarrow> dll h' C cs"
  by (rule dll_frame) (auto intro: same_links_mono)

lemma partition_step:
  assumes f: "four h H (x # rest) L ls E es G gs"
  defines "N \<equiv> set (H # (x # rest) @ L # ls @ E # es @ G # gs)"
  shows "four (list_move_tail x E h) H rest L ls E (es @ [x]) G gs \<and>
         same_links h (list_move_tail x E h) (- N) \<and> same_data h (list_move_tail x E h)"
    and "four (list_move_tail x L h) H rest L (ls @ [x]) E es G gs \<and>
         same_links h (list_move_tail x L h) (- N) \<and> same_data h (list_move_tail x L h)"
    and "four (list_move x G h) H rest L ls E es G (x # gs) \<and>
         same_links h (list_move x G h) (- N) \<and> same_data h (list_move x G h)"
proof -
  have H: "dll h H (x # rest)" and L: "dll h L ls" and E: "dll h E es" and G: "dll h G gs"
    and d: "distinct (H # (x # rest) @ L # ls @ E # es @ G # gs)"
    using f by (simp_all add: four_def)
  have dE: "set (H # x # rest) \<inter> set (E # es) = {}"
    and dL: "set (H # x # rest) \<inter> set (L # ls) = {}"
    and dG: "set (H # x # rest) \<inter> set (G # gs) = {}"
    and dLE: "set (L # ls) \<inter> set (E # es) = {}"
    and dLG: "set (L # ls) \<inter> set (G # gs) = {}"
    and dEG: "set (E # es) \<inter> set (G # gs) = {}"
    using d by auto
  {
    let ?h = "list_move_tail x E h"
    note m = move_two(1) [OF H E dE]
    have "dll ?h L ls" using m dL dLE by (intro dll_other [OF L, of ?h]) auto
    moreover have "dll ?h G gs" using m dG dEG by (intro dll_other [OF G, of ?h]) auto
    moreover have "same_links h ?h (- N)"
      using m unfolding N_def by (auto intro: same_links_mono)
    ultimately show "four ?h H rest L ls E (es @ [x]) G gs \<and> same_links h ?h (- N) \<and> same_data h ?h"
      using m d by (auto simp: four_def)
  }
  {
    let ?h = "list_move_tail x L h"
    note m = move_two(1) [OF H L dL]
    have "dll ?h E es" using m dE dLE by (intro dll_other [OF E, of ?h]) auto
    moreover have "dll ?h G gs" using m dG dLG by (intro dll_other [OF G, of ?h]) auto
    moreover have "same_links h ?h (- N)"
      using m unfolding N_def by (auto intro: same_links_mono)
    ultimately show "four ?h H rest L (ls @ [x]) E es G gs \<and> same_links h ?h (- N) \<and> same_data h ?h"
      using m d by (auto simp: four_def)
  }
  {
    let ?h = "list_move x G h"
    note m = move_two(2) [OF H G dG]
    have "dll ?h E es" using m dE dEG by (intro dll_other [OF E, of ?h]) auto
    moreover have "dll ?h L ls" using m dL dLG by (intro dll_other [OF L, of ?h]) auto
    moreover have "same_links h ?h (- N)"
      using m unfolding N_def by (auto intro: same_links_mono)
    ultimately show "four ?h H rest L ls E es G (x # gs) \<and> same_links h ?h (- N) \<and> same_data h ?h"
      using m d by (auto simp: four_def)
  }
qed

lemma partition_loop_four:
  "four h H rem L ls E es G gs \<Longrightarrow>
   \<exists>h'. partition_loop H p L E G (hd (rem @ [H])) (nxt h (hd (rem @ [H]))) h = Some h' \<and>
     four h' H [] L (ls @ filter (\<lambda>a. strcmp (val h a) (val h p) < 0) rem)
                  E (es @ filter (\<lambda>a. strcmp (val h a) (val h p) = 0) rem)
                  G (rev (filter (\<lambda>a. strcmp (val h a) (val h p) > 0) rem) @ gs) \<and>
     same_links h h' (- set (H # rem @ L # ls @ E # es @ G # gs)) \<and> same_data h h'"
proof (induction rem arbitrary: h ls es gs)
  case Nil
  have "partition_loop H p L E G H (nxt h H) h = Some h"
    by (subst partition_loop.simps) simp
  then show ?case using Nil by simp
next
  case (Cons x rest)
  let ?N = "set (H # (x # rest) @ L # ls @ E # es @ G # gs)"
  have H: "dll h H (x # rest)" using Cons.prems by (simp add: four_def)
  have xH: "x \<noteq> H" using H by (auto simp: dll_def)
  have nx: "nxt h x = hd (rest @ [H])" using dll_nxt [of h H "[]" x rest] H by simp
  define c where "c = strcmp (val h x) (val h p)"
  define h1 where "h1 = (if c = 0 then list_move_tail x E h
                         else if c < 0 then list_move_tail x L h else list_move x G h)"
  define ls1 where "ls1 = (if c < 0 then ls @ [x] else ls)"
  define es1 where "es1 = (if c = 0 then es @ [x] else es)"
  define gs1 where "gs1 = (if c > 0 then x # gs else gs)"
  have st: "four h1 H rest L ls1 E es1 G gs1 \<and> same_links h h1 (- ?N) \<and> same_data h h1"
    using partition_step [OF Cons.prems]
    by (cases "c = 0"; cases "c < 0") (simp_all add: h1_def ls1_def es1_def gs1_def)
  then have v: "val h1 = val h" using same_data_val by blast
  have unf: "partition_loop H p L E G x (nxt h x) h
           = partition_loop H p L E G (hd (rest @ [H])) (nxt h1 (hd (rest @ [H]))) h1"
    using xH nx
    by (subst partition_loop.simps) (simp add: Let_def h1_def c_def)
  from Cons.IH [of h1 ls1 es1 gs1] st obtain h' where
    r: "partition_loop H p L E G (hd (rest @ [H])) (nxt h1 (hd (rest @ [H]))) h1 = Some h'"
      "four h' H [] L (ls1 @ filter (\<lambda>a. strcmp (val h1 a) (val h1 p) < 0) rest)
                  E (es1 @ filter (\<lambda>a. strcmp (val h1 a) (val h1 p) = 0) rest)
                  G (rev (filter (\<lambda>a. strcmp (val h1 a) (val h1 p) > 0) rest) @ gs1)"
      "same_links h1 h' (- set (H # rest @ L # ls1 @ E # es1 @ G # gs1))" "same_data h1 h'"
    by blast
  have N: "set (H # rest @ L # ls1 @ E # es1 @ G # gs1) \<subseteq> ?N"
    by (auto simp: ls1_def es1_def gs1_def)
  have sl: "same_links h h' (- ?N)"
    using st same_links_mono [OF r(3), of "- ?N"] N same_links_trans by blast
  have sd: "same_data h h'" using st r(4) same_data_trans by blast
  have l: "ls1 @ filter (\<lambda>a. strcmp (val h a) (val h p) < 0) rest
         = ls @ filter (\<lambda>a. strcmp (val h a) (val h p) < 0) (x # rest)"
    and e: "es1 @ filter (\<lambda>a. strcmp (val h a) (val h p) = 0) rest
         = es @ filter (\<lambda>a. strcmp (val h a) (val h p) = 0) (x # rest)"
    and g: "rev (filter (\<lambda>a. strcmp (val h a) (val h p) > 0) rest) @ gs1
         = rev (filter (\<lambda>a. strcmp (val h a) (val h p) > 0) (x # rest)) @ gs"
    by (simp_all add: ls1_def es1_def gs1_def c_def)
  have call: "partition_loop H p L E G (hd ((x # rest) @ [H])) (nxt h (hd ((x # rest) @ [H]))) h = Some h'"
    using unf r(1) by simp
  have f4: "four h' H [] L (ls @ filter (\<lambda>a. strcmp (val h a) (val h p) < 0) (x # rest))
                  E (es @ filter (\<lambda>a. strcmp (val h a) (val h p) = 0) (x # rest))
                  G (rev (filter (\<lambda>a. strcmp (val h a) (val h p) > 0) (x # rest)) @ gs)"
    using r(2) unfolding v l e g .
  show ?case using call f4 sl sd by blast
qed

lemma dll_segments:
  assumes "dll h l xs" "xs \<noteq> []"
  shows "links h xs" "nxt h l = hd xs" "prv h l = last xs" "distinct xs" "l \<notin> set xs"
proof -
  have l: "links h ([l] @ xs @ [l])" using assms(1) by (simp add: dll_def)
  then have "links h (xs @ [l])" using links_appendD by blast
  then show "links h xs" using links_appendD by blast
  show "nxt h l = hd xs" using dll_nxt_head [OF assms(1)] assms(2) by simp
  show "prv h l = last xs" using dll_prv_head [OF assms(1)] assms(2) by simp
  show "distinct xs" "l \<notin> set xs" using assms(1) by (simp_all add: dll_def)
qed

lemma dll_splice:
  assumes l: "dll h l xs" and H: "dll h H ys" and dis: "set (l # xs) \<inter> set (H # ys) = {}"
  shows "dll (list_splice l H h) H (xs @ ys) \<and>
         same_links h (list_splice l H h) (- (set (l # xs) \<union> set (H # ys)))"
proof (cases xs)
  case Nil
  then have "nxt h l = l" using l by (simp add: dll_def)
  then have "list_splice l H h = h" by (simp add: list_splice_def list_empty_def)
  then show ?thesis using H Nil by simp
next
  case (Cons a' xs')
  then have ne: "xs \<noteq> []" by simp
  let ?S = "ys @ [H]"
  define a where "a = hd xs"
  define z where "z = last xs"
  define n where "n = hd ?S"
  note s = dll_segments [OF l ne]
  have lS: "links h ?S" using H links_appendD [of h "[H]" ?S] by (simp add: dll_def)
  have dS: "distinct ?S" using H by (auto simp: dll_def)
  have nH: "nxt h H = n" unfolding n_def using dll_nxt_head [OF H] .
  have ain: "a \<in> set xs" and zin: "z \<in> set xs" and nin: "n \<in> set ?S"
    unfolding a_def z_def n_def using ne hd_in_set [of ?S] by auto
  have "l \<noteq> nxt h l" using s(2,5) ne hd_in_set [of xs] by auto
  then have h': "nxt (list_splice l H h) = (nxt h)(H := a, z := n)"
    "prv (list_splice l H h) = (prv h)(a := H, n := z)"
    by (simp_all add: list_splice_def list_empty_def Let_def s(2,3) nH a_def z_def)
  let ?h = "list_splice l H h"
  have zb: "z \<notin> set (butlast xs)" and at: "a \<notin> set (tl xs)" and nt: "n \<notin> set (tl ?S)"
    unfolding z_def a_def n_def
    using last_notin_butlast [OF s(4)] hd_notin_tl [OF s(4)] hd_notin_tl [OF dS] by auto
  have x1: "links ?h xs = links h xs"
  proof (rule links_frame)
    show "\<forall>b\<in>set (butlast xs). nxt ?h b = nxt h b"
      using zb dis in_set_butlastD [of _ xs] by (auto simp: h')
    show "\<forall>b\<in>set (tl xs). prv ?h b = prv h b"
      using at nin dis list.set_sel(2) [of xs] ne by (auto simp: h')
  qed
  have x2: "links ?h ?S = links h ?S"
  proof (rule links_frame)
    show "\<forall>b\<in>set (butlast ?S). nxt ?h b = nxt h b"
      using zin dis H by (auto simp: h' dll_def)
    show "\<forall>b\<in>set (tl ?S). prv ?h b = prv h b"
      using nt ain dis list.set_sel(2) [of ?S] by (auto simp: h')
  qed
  have zH: "z \<noteq> H" "a \<noteq> n" using zin ain nin dis by auto
  have j1: "nxt ?h z = n" "prv ?h n = z" by (simp_all add: h')
  have j2: "nxt ?h H = a" "prv ?h a = H" using zH by (simp_all add: h')
  have "links ?h (xs @ ?S)"
    using links_app [of xs ?S ?h] ne x1 x2 s(1) lS j1 by (simp add: z_def n_def)
  then have "links ?h ([H] @ (xs @ ?S))"
    using links_app [of "[H]" "xs @ ?S" ?h] ne j2 by (simp add: a_def)
  moreover have "distinct (H # xs @ ys)" using s(4) H dis by (auto simp: dll_def)
  ultimately have D: "dll ?h H (xs @ ys)" by (simp add: dll_def)
  have "same_links h ?h (- (set (l # xs) \<union> set (H # ys)))"
    using ain zin nin unfolding same_links_def by (auto simp: h')
  then show ?thesis using D by simp
qed

lemma dll_splice_tail:
  assumes l: "dll h l xs" and H: "dll h H ys" and dis: "set (l # xs) \<inter> set (H # ys) = {}"
  shows "dll (list_splice_tail l H h) H (ys @ xs) \<and>
         same_links h (list_splice_tail l H h) (- (set (l # xs) \<union> set (H # ys)))"
proof (cases xs)
  case Nil
  then have "nxt h l = l" using l by (simp add: dll_def)
  then have "list_splice_tail l H h = h" by (simp add: list_splice_tail_def list_empty_def)
  then show ?thesis using H Nil by simp
next
  case (Cons a' xs')
  then have ne: "xs \<noteq> []" by simp
  let ?P = "H # ys"
  define a where "a = hd xs"
  define z where "z = last xs"
  define p where "p = last ?P"
  note s = dll_segments [OF l ne]
  have lP: "links h ?P" using H links_appendD [of h ?P "[H]"] by (simp add: dll_def)
  have dP: "distinct ?P" using H by (auto simp: dll_def)
  have pH: "prv h H = p" unfolding p_def using dll_prv_head [OF H] .
  have ain: "a \<in> set xs" and zin: "z \<in> set xs" and pin: "p \<in> set ?P"
    unfolding a_def z_def p_def using ne dll_last_in [of H ys] by auto
  have "l \<noteq> nxt h l" using s(2,5) ne hd_in_set [of xs] by auto
  then have h': "nxt (list_splice_tail l H h) = (nxt h)(z := H, p := a)"
    "prv (list_splice_tail l H h) = (prv h)(H := z, a := p)"
    by (simp_all add: list_splice_tail_def list_empty_def Let_def s(2,3) pH a_def z_def)
  let ?h = "list_splice_tail l H h"
  have zb: "z \<notin> set (butlast xs)" and at: "a \<notin> set (tl xs)" and pb: "p \<notin> set (butlast ?P)"
    unfolding z_def a_def p_def
    using last_notin_butlast [OF s(4)] hd_notin_tl [OF s(4)] last_notin_butlast [OF dP] by auto
  have x1: "links ?h xs = links h xs"
  proof (rule links_frame)
    show "\<forall>b\<in>set (butlast xs). nxt ?h b = nxt h b"
      using zb pin dis in_set_butlastD [of _ xs] by (auto simp: h')
    show "\<forall>b\<in>set (tl xs). prv ?h b = prv h b"
      using at dis list.set_sel(2) [of xs] ne by (auto simp: h')
  qed
  have x2: "links ?h ?P = links h ?P"
  proof (rule links_frame)
    show "\<forall>b\<in>set (butlast ?P). nxt ?h b = nxt h b"
      using zin pb dis in_set_butlastD [of _ ?P] by (auto simp del: butlast.simps simp: h')
    show "\<forall>b\<in>set (tl ?P). prv ?h b = prv h b"
      using ain dis dP by (auto simp: h')
  qed
  have ne2: "z \<noteq> p" "a \<noteq> H" using zin ain pin dis by auto
  have j1: "nxt ?h p = a" "prv ?h a = p" by (simp_all add: h')
  have j2: "nxt ?h z = H" "prv ?h H = z" using ne2 by (simp_all add: h')
  have "links ?h (?P @ xs)"
    using links_app [of ?P xs ?h] ne x1 x2 s(1) lP j1 unfolding p_def a_def by simp
  moreover have "last (?P @ xs) = z" using ne by (simp add: z_def)
  ultimately have "links ?h ((?P @ xs) @ [H])"
    using links_app [of "?P @ xs" "[H]" ?h] j2 by simp
  moreover have "distinct (H # ys @ xs)" using s(4) H dis by (auto simp: dll_def)
  ultimately have D: "dll ?h H (ys @ xs)" by (simp add: dll_def)
  have "same_links h ?h (- (set (l # xs) \<union> set (H # ys)))"
    using ain zin pin unfolding same_links_def by (auto simp: h')
  then show ?thesis using D by simp
qed

lemma INIT_links: "same_links h (INIT_LIST_HEAD x h) (- {x})" "dll (INIT_LIST_HEAD x h) x []"
  by (simp_all add: same_links_def INIT_LIST_HEAD_def dll_def)

lemma dll_not_singular:
  assumes "dll h head (p # q # rest)"
  shows "\<not> list_empty head h" "\<not> list_is_singular head h"
proof -
  have n: "nxt h head = p" using dll_nxt_head [OF assms] by simp
  have l: "prv h head = last (q # rest)" using dll_prv_head [OF assms] by simp
  have "distinct (head # p # q # rest)" using assms by (simp add: dll_def)
  then have "p \<noteq> head" "last (q # rest) \<noteq> p"
    using last_in_set [of "q # rest"] by auto
  then show "\<not> list_empty head h" "\<not> list_is_singular head h"
    using n l by (simp_all add: list_empty_def list_is_singular_def)
qed

lemma dll_small:
  assumes "dll h head as" "length as \<le> 1"
  shows "list_empty head h \<or> list_is_singular head h"
proof (cases as)
  case Nil
  then show ?thesis using assms by (simp add: dll_def list_empty_def)
next
  case (Cons a bs)
  then have "as = [a]" using assms(2) by simp
  then show ?thesis using assms(1) by (auto simp: dll_def list_empty_def list_is_singular_def)
qed

lemma set_qsort_spec [simp]: "set (qsort_spec f xs) = set xs"
  by (induction f xs rule: qsort_spec.induct) auto

lemma list_qsort_dll:
  "dll h head as \<Longrightarrow> \<forall>a\<in>set (head # as). a < sp \<Longrightarrow>
   \<exists>h'. list_qsort head sp h = Some h' \<and> dll h' head (qsort_spec (val h) as) \<and>
        same_data h h' \<and> same_links h h' (- (set (head # as) \<union> {a. sp \<le> a}))"
proof (induction "length as" arbitrary: as h head sp rule: less_induct)
  case less
  show ?case
  proof (cases "length as \<le> 1")
    case True
    then have "list_qsort head sp h = Some h"
      using dll_small [OF less.prems(1)] by (subst list_qsort.simps) simp
    moreover have "qsort_spec (val h) as = as"
      using True by (cases as) auto
    ultimately show ?thesis using less.prems(1) by simp
  next
    case False
    then obtain p q rest' where as: "as = p # q # rest'"
      by (cases as; cases "tl as") auto
    define rest where "rest = q # rest'"
    have as': "as = p # rest" by (simp add: as rest_def)
    define L where "L = sp"
    define G where "G = sp + 1"
    define E where "E = sp + 2"
    have fr: "L \<noteq> G" "L \<noteq> E" "G \<noteq> E" "sp \<le> L" "sp \<le> G" "sp \<le> E"
      "L < sp + 3" "G < sp + 3" "E < sp + 3"
      by (simp_all add: L_def G_def E_def)
    have lo: "head < sp" "p < sp" "\<forall>a\<in>set rest. a < sp"
      using less.prems(2) by (simp_all add: as')
    have "a \<notin> set (head # p # rest)" if "sp \<le> a" for a
      using lo that by (auto simp: not_le [symmetric])
    then have out: "L \<notin> set (head # p # rest)" "E \<notin> set (head # p # rest)"
      "G \<notin> set (head # p # rest)"
      using fr by blast+
    have d0: "distinct (head # p # rest)" using less.prems(1) by (simp add: dll_def as')
    have ns: "\<not> list_empty head h" "\<not> list_is_singular head h"
      using dll_not_singular [of h head p q rest'] less.prems(1) by (simp_all add: as)
    \<comment> \<open>the three sentinels\<close>
    define h3 where "h3 = INIT_LIST_HEAD G (INIT_LIST_HEAD E (INIT_LIST_HEAD L h))"
    have l3: "same_links h h3 (- {L, E, G})"
      unfolding h3_def
      by (intro same_links_trans [OF same_links_mono [OF INIT_links(1)]
            same_links_trans [OF same_links_mono [OF INIT_links(1)] same_links_mono [OF INIT_links(1)]]])
        auto
    have s3: "same_data h h3"
      unfolding h3_def by (intro same_data_trans [OF same_data_prims(4) same_data_trans [OF same_data_prims(4) same_data_prims(4)]])
    have H3: "dll h3 head (p # rest)"
      using less.prems(1) l3 out unfolding as' by (intro dll_other [of h head _ h3 "{L, E, G}"]) auto
    have e3: "dll h3 L []" "dll h3 E []" "dll h3 G []"
      using fr by (simp_all add: h3_def dll_def INIT_LIST_HEAD_def)
    \<comment> \<open>the pivot is taken out\<close>
    have pv: "nxt h3 head = p" using dll_nxt_head [OF H3] by simp
    define h4 where "h4 = list_del_init p h3"
    have l4: "same_links h3 h4 (- set (head # p # rest))"
      unfolding h4_def list_del_init_def
      using list_del_links [of h3 head "[]" p rest] H3
      by (intro same_links_trans [OF same_links_mono same_links_mono [OF INIT_links(1)]]) auto
    have s4: "same_data h3 h4"
      unfolding h4_def list_del_init_def by (rule same_data_trans [OF same_data_prims(1) same_data_prims(4)])
    have "dll (list_del p h3) head rest" using dll_del [of h3 head "[]" p rest] H3 by simp
    then have H4: "dll h4 head rest"
      unfolding h4_def list_del_init_def using d0
      by (intro dll_other [OF _ INIT_links(1)]) auto
    have e4: "dll h4 L []" "dll h4 E []" "dll h4 G []"
      using e3 out by (auto intro!: dll_other [OF _ l4])
    have f4: "four h4 head rest L [] E [] G []"
      using H4 e4 d0 out fr by (auto simp: four_def)
    have v4: "val h4 = val h" using same_data_val [OF same_data_trans [OF s3 s4]] .
    \<comment> \<open>the pass over the rest\<close>
    define ls where "ls = filter (\<lambda>a. strcmp (val h a) (val h p) < 0) rest"
    define es where "es = filter (\<lambda>a. strcmp (val h a) (val h p) = 0) rest"
    define gs where "gs = rev (filter (\<lambda>a. strcmp (val h a) (val h p) > 0) rest)"
    have sub: "set ls \<subseteq> set rest" "set es \<subseteq> set rest" "set gs \<subseteq> set rest"
      by (auto simp: ls_def es_def gs_def)
    from partition_loop_four [OF f4, of p] obtain h5 where
      p5: "partition_loop head p L E G (hd (rest @ [head])) (nxt h4 (hd (rest @ [head]))) h4 = Some h5"
      and f5: "four h5 head [] L ls E es G gs"
      and l5: "same_links h4 h5 (- set (head # rest @ L # [] @ E # [] @ G # []))"
      and s5: "same_data h4 h5"
      unfolding v4 ls_def es_def gs_def by auto
    have it: "nxt h4 head = hd (rest @ [head])" using dll_nxt_head [OF H4] .
    define M where "M = set (head # p # rest) \<union> {a. sp \<le> a}"
    have LEG: "L \<in> M" "E \<in> M" "G \<in> M" using fr by (simp_all add: M_def)
    have v5: "val h5 = val h" using same_data_val [OF s5] v4 by simp
    have H5: "dll h5 head []" and L5: "dll h5 L ls" and E5: "dll h5 E es" and G5: "dll h5 G gs"
      and d5: "distinct (head # [] @ L # ls @ E # es @ G # gs)"
      using f5 by (simp_all add: four_def)
    have lsp: "a < sp" if "a \<in> set (ls @ es @ gs)" for a using that sub lo by auto
    have lsp3: "a < sp + 3" if "a \<in> set (L # ls) \<or> a \<in> set (G # gs)" for a
    proof -
      have "a = L \<or> a = G \<or> a < sp" using that lsp by auto
      then show ?thesis using fr by auto
    qed
    \<comment> \<open>the two recursive calls\<close>
    have "length ls < length as" "length gs < length as"
      by (simp_all add: ls_def gs_def as' less_Suc_eq_le)
    note IH = less.hyps [OF this(1)] less.hyps [OF this(2)]
    have "\<forall>a\<in>set (L # ls). a < sp + 3" using lsp3 by blast
    from IH(1) [OF L5 this] obtain h6 where
      q6: "list_qsort L (sp + 3) h5 = Some h6" and L6: "dll h6 L (qsort_spec (val h) ls)"
      and s6: "same_data h5 h6" and l6: "same_links h5 h6 (- (set (L # ls) \<union> {a. sp + 3 \<le> a}))"
      unfolding v5 by blast
    have hi: "\<not> sp + 3 \<le> a" if "a \<in> set (head # p # rest) \<or> a \<in> {L, E, G}" for a
      using that lo fr by auto
    have nohi: "{a. sp + 3 \<le> a} \<inter> (set (head # p # rest) \<union> {L, E, G}) = {}"
      using hi by blast
    have dd: "set (L # ls) \<inter> set (E # es) = {}" "set (L # ls) \<inter> set (G # gs) = {}"
      "set (E # es) \<inter> set (G # gs) = {}"
      "head \<notin> set (L # ls) \<union> set (E # es) \<union> set (G # gs)"
      using d5 by auto
    have pn: "p \<notin> set (L # ls) \<union> set (E # es) \<union> set (G # gs)"
      using sub d0 out by auto
    have dj6: "set (head # []) \<inter> (set (L # ls) \<union> {a. sp + 3 \<le> a}) = {}"
      "set (E # es) \<inter> (set (L # ls) \<union> {a. sp + 3 \<le> a}) = {}"
      "set (G # gs) \<inter> (set (L # ls) \<union> {a. sp + 3 \<le> a}) = {}"
      using nohi dd sub by (simp_all add: disjoint_iff subset_iff) blast+
    have dj7: "set (head # []) \<inter> (set (G # gs) \<union> {a. sp + 3 \<le> a}) = {}"
      "set (E # es) \<inter> (set (G # gs) \<union> {a. sp + 3 \<le> a}) = {}"
      "set (L # qsort_spec (val h) ls) \<inter> (set (G # gs) \<union> {a. sp + 3 \<le> a}) = {}"
      using nohi dd sub by (simp_all add: disjoint_iff subset_iff) blast+
    have H6: "dll h6 head []" and E6: "dll h6 E es" and G6: "dll h6 G gs"
      using dll_other [OF H5 l6 dj6(1)] dll_other [OF E5 l6 dj6(2)] dll_other [OF G5 l6 dj6(3)]
      by simp_all
    have v6: "val h6 = val h" using same_data_val [OF s6] v5 by simp
    have "\<forall>a\<in>set (G # gs). a < sp + 3" using lsp3 by blast
    from IH(2) [OF G6 this] obtain h7 where
      q7: "list_qsort G (sp + 3) h6 = Some h7" and G7: "dll h7 G (qsort_spec (val h) gs)"
      and s7: "same_data h6 h7" and l7: "same_links h6 h7 (- (set (G # gs) \<union> {a. sp + 3 \<le> a}))"
      unfolding v6 by blast
    have H7: "dll h7 head []" and E7: "dll h7 E es" and L7: "dll h7 L (qsort_spec (val h) ls)"
      using dll_other [OF H6 l7 dj7(1)] dll_other [OF E6 l7 dj7(2)] dll_other [OF L6 l7 dj7(3)]
      by simp_all
    \<comment> \<open>the list is put together again\<close>
    let ?ls = "qsort_spec (val h) ls" and ?gs = "qsort_spec (val h) gs"
    define h8 where "h8 = list_add p head h7"
    have l8: "same_links h7 h8 (- set (p # head # []))"
      unfolding h8_def using list_add_head_links [OF H7] .
    have H8: "dll h8 head [p]"
      unfolding h8_def using dll_list_add [OF H7, of p] d0 by simp
    have dj8: "set (L # ?ls) \<inter> set (p # head # []) = {}" "set (E # es) \<inter> set (p # head # []) = {}"
      "set (G # ?gs) \<inter> set (p # head # []) = {}"
      using dd pn by auto
    have L8: "dll h8 L ?ls" and E8: "dll h8 E es" and G8: "dll h8 G ?gs"
      using dll_other [OF L7 l8 dj8(1)] dll_other [OF E7 l8 dj8(2)] dll_other [OF G7 l8 dj8(3)] .
    define h9 where "h9 = list_splice E head h8"
    have "set (E # es) \<inter> set (head # [p]) = {}" using dd pn by auto
    note sp9 = dll_splice [OF E8 H8 this, folded h9_def]
    have dj9: "set (L # ?ls) \<inter> (set (E # es) \<union> set (head # [p])) = {}"
      "set (G # ?gs) \<inter> (set (E # es) \<union> set (head # [p])) = {}"
      using dd pn by auto
    have H9: "dll h9 head (es @ [p])" and L9: "dll h9 L ?ls" and G9: "dll h9 G ?gs"
      using sp9 dll_other [OF L8 _ dj9(1)] dll_other [OF G8 _ dj9(2)] by blast+
    define h10 where "h10 = list_splice L head h9"
    have "set (L # ?ls) \<inter> set (head # es @ [p]) = {}" using dd pn by auto
    note sp10 = dll_splice [OF L9 H9 this, folded h10_def]
    have dj10: "set (G # ?gs) \<inter> (set (L # ?ls) \<union> set (head # es @ [p])) = {}"
      using dd pn by auto
    have H10: "dll h10 head (?ls @ es @ [p])" and G10: "dll h10 G ?gs"
      using sp10 dll_other [OF G9 _ dj10] by blast+
    define h11 where "h11 = list_splice_tail G head h10"
    have "set (G # ?gs) \<inter> set (head # ?ls @ es @ [p]) = {}" using dd pn by auto
    note sp11 = dll_splice_tail [OF G10 H10 this, folded h11_def]
    have eq: "qsort_spec (val h) (p # rest) = (?ls @ es @ [p]) @ ?gs"
      by (simp only: qsort_spec.simps ls_def es_def gs_def append_assoc)
    have "dll h11 head ((?ls @ es @ [p]) @ ?gs)" by (rule conjunct1 [OF sp11])
    then have res: "dll h11 head (qsort_spec (val h) as)"
      by (subst as', subst eq)
    \<comment> \<open>what was changed\<close>
    have sd: "same_data h h11"
    proof -
      have "same_data h7 h8" "same_data h8 h9" "same_data h9 h10" "same_data h10 h11"
        by (simp_all add: h8_def h9_def h10_def h11_def)
      then show ?thesis
        using s3 s4 s5 s6 s7 unfolding same_data_def by simp
    qed
    have inM: "set (head # p # rest) \<subseteq> M" "{a. sp + 3 \<le> a} \<subseteq> M"
      "set (L # ls) \<subseteq> M" "set (E # es) \<subseteq> M" "set (G # gs) \<subseteq> M"
      using LEG sub by (auto simp: M_def)
    have m: "same_links h h3 (- M)" "same_links h3 h4 (- M)" "same_links h4 h5 (- M)"
      "same_links h5 h6 (- M)" "same_links h6 h7 (- M)" "same_links h7 h8 (- M)"
      "same_links h8 h9 (- M)" "same_links h9 h10 (- M)" "same_links h10 h11 (- M)"
      using inM LEG
      by (auto intro!: same_links_mono [OF l3] same_links_mono [OF l4] same_links_mono [OF l5]
          same_links_mono [OF l6] same_links_mono [OF l7] same_links_mono [OF l8]
          same_links_mono [OF conjunct2 [OF sp9]] same_links_mono [OF conjunct2 [OF sp10]]
          same_links_mono [OF conjunct2 [OF sp11]])
    have sl: "same_links h h11 (- (set (head # as) \<union> {a. sp \<le> a}))"
      using m unfolding M_def as' same_links_def by simp
    \<comment> \<open>the call\<close>
    have call: "list_qsort head sp h = Some h11"
      using ns pv [unfolded h3_def L_def G_def E_def]
        it [unfolded h4_def h3_def L_def G_def E_def]
        p5 [unfolded h4_def h3_def L_def G_def E_def]
        q6 [unfolded L_def] q7 [unfolded G_def]
      unfolding h11_def h10_def h9_def h8_def L_def G_def E_def
      by (subst list_qsort.simps) (simp add: Let_def)
    show ?thesis using call res sd sl by blast
  qed
qed

text \<open>C5, as the code has it. On a list of two or more nodes whose addresses lie below the
  stack frame, \<^verbatim>\<open>list_qsort\<close> returns; the first node \<open>p\<close> is the pivot; the forward
  traversal of the result reads the smaller nodes as \<^verbatim>\<open>list_qsort\<close> orders them, then the
  nodes equal to the pivot in their old order, then the pivot, then the greater nodes as
  \<^verbatim>\<open>list_qsort\<close> orders them, the greater bucket having been filled in reverse. No
  element, string or allocation changes, and no link outside the list and the stack.\<close>

theorem list_qsort_order:
  assumes d: "dll h head (p # x # xs)" and lo: "\<forall>a\<in>set (head # p # x # xs). a < sp"
  shows "\<exists>h'. list_qsort head sp h = Some h' \<and>
           dll h' head
             (qsort_spec (val h) (filter (\<lambda>a. strcmp (val h a) (val h p) < 0) (x # xs)) @
              filter (\<lambda>a. strcmp (val h a) (val h p) = 0) (x # xs) @ [p] @
              qsort_spec (val h) (rev (filter (\<lambda>a. strcmp (val h a) (val h p) > 0) (x # xs)))) \<and>
           same_data h h' \<and>
           same_links h h' (- (set (head # p # x # xs) \<union> {a. sp \<le> a}))"
  using list_qsort_dll [OF d lo] by (simp only: qsort_spec.simps)

theorem list_qsort_order_witness:
  "dll (queue_of [''b'', ''c'', ''a'', ''b'']) 1 [2, 4, 6, 8] \<and>
   map (val (queue_of [''b'', ''c'', ''a'', ''b''])) [2, 4, 6, 8] = [''b'', ''c'', ''a'', ''b''] \<and>
   (\<exists>h'. list_qsort 1 100 (queue_of [''b'', ''c'', ''a'', ''b'']) = Some h' \<and>
      dll h' 1 [6, 8, 2, 4] \<and> map (val h') [6, 8, 2, 4] = [''a'', ''b'', ''b'', ''c''])"
proof -
  let ?h = "queue_of [''b'', ''c'', ''a'', ''b'']"
  have d: "dll ?h 1 (2 # 4 # [6, 8])" by code_simp
  have lo: "\<forall>a\<in>set (1 # 2 # 4 # [6, 8]). a < (100 :: addr)" by simp
  have v: "map (val ?h) [2, 4, 6, 8] = [''b'', ''c'', ''a'', ''b'']" by code_simp
  have k: "qsort_spec (val ?h) (filter (\<lambda>a. strcmp (val ?h a) (val ?h 2) < 0) (4 # [6, 8])) @
              filter (\<lambda>a. strcmp (val ?h a) (val ?h 2) = 0) (4 # [6, 8]) @ [2] @
              qsort_spec (val ?h) (rev (filter (\<lambda>a. strcmp (val ?h a) (val ?h 2) > 0) (4 # [6, 8])))
            = [6, 8, 2, 4]"
    by code_simp
  from list_qsort_order [OF d lo] obtain h' where
    h': "list_qsort 1 100 ?h = Some h'" "dll h' 1 [6, 8, 2, 4]" "same_data ?h h'"
    unfolding k by blast
  have "map (val h') [6, 8, 2, 4] = map (val ?h) [6, 8, 2, 4]"
    using same_data_val [OF h'(3)] by simp
  also have "\<dots> = [''a'', ''b'', ''b'', ''c'']" by code_simp
  finally show ?thesis using h' d v by auto
qed

text \<open>C5, as the specification words it: the pivot first, then the equal, the smaller and the
  greater bucket. On b, a, c the pivot is the node 2, the smaller bucket is the node 4
  and the greater bucket the node 6; the result is 4, 2, 6 and not 2, 4, 6.\<close>

theorem list_qsort_pivot_first_counterexample:
  "list_qsort 1 100 (queue_of [''b'', ''a'', ''c'']) \<noteq> None \<and>
   dll (the (list_qsort 1 100 (queue_of [''b'', ''a'', ''c'']))) 1 [4, 2, 6] \<and>
   map (val (the (list_qsort 1 100 (queue_of [''b'', ''a'', ''c''])))) [4, 2, 6] = [''a'', ''b'', ''c''] \<and>
   \<not> dll (the (list_qsort 1 100 (queue_of [''b'', ''a'', ''c'']))) 1 ([2] @ [] @ [4] @ [6])"
  by code_simp

section \<open>The work stack of the sort\<close>

lemma sll_frame: "a \<notin> set xs \<Longrightarrow> sll (h\<lparr>nxt := (nxt h)(a := b)\<rparr>) c xs = sll h c xs"
  by (induction xs arbitrary: c) auto

lemma val_nxt_upd [simp]: "val (h\<lparr>nxt := f\<rparr>) = val h"
  by (simp add: val_def fun_eq_iff)

lemma split_loop_overflow:
  "sll (hp s) a as \<Longrightarrow> distinct as \<Longrightarrow> pairs (val (hp s)) as \<Longrightarrow>
   0 \<le> top' s \<Longrightarrow> top' s < 1000 \<Longrightarrow> stack s (nat (top' s)) = a \<Longrightarrow>
   1000 \<le> top' s + int (length as div 2) \<Longrightarrow>
   split_loop s = Some (Inl StackOutOfBounds)"
proof (induction "length as" arbitrary: as s a rule: less_induct)
  case less
  from less.prems(3) obtain x y rest where as: "as = x # y # rest"
    by (cases as; cases "tl as") auto
  let ?h = "hp s"
  have x: "a = x" "x \<noteq> 0" "nxt ?h x = y" "y \<noteq> 0" and r: "sll ?h (nxt ?h y) rest"
    using less.prems(1) by (simp_all add: as)
  have e: "strcmp (val ?h x) (val ?h y) = 0" using less.prems(3) by (simp add: as)
  have d: "x \<noteq> y" "x \<notin> set rest" "y \<notin> set rest" "distinct rest"
    using less.prems(2) by (auto simp: as)
  have t: "0 \<le> top' s" "top' s < 1000" "stack s (nat (top' s)) = x"
    using less.prems x by simp_all
  show ?case
  proof (cases rest)
    case Nil
    then have ny: "nxt ?h y = 0" using r by simp
    have f: "find_split x y ?h = Some x"
      using ny x by (subst find_split.simps) simp
    have "top' s = 999" using less.prems(7) t(2) by (simp add: as Nil)
    then show ?thesis
      using t x f
      by (subst split_loop.simps) (simp add: Let_def push_def STACK_SLOTS_def)
  next
    case (Cons z rest')
    then have z: "nxt ?h y = z" "z \<noteq> 0" and rz: "sll ?h z rest" using r by auto
    have ne: "strcmp (val ?h y) (val ?h z) \<noteq> 0" and pr: "pairs (val ?h) rest"
      using less.prems(3) by (simp_all add: as Cons)
    have "skip_equal y ?h = Some y"
      using z ne by (subst skip_equal.simps) simp
    then have "skip_equal x ?h = Some y"
      using x e by (subst skip_equal.simps) simp
    then have f: "find_split x y ?h = Some y"
      using x z e by (subst find_split.simps) simp
    show ?thesis
    proof (cases "top' s = 999")
      case True
      then show ?thesis
        using t x f z
        by (subst split_loop.simps) (simp add: Let_def push_def STACK_SLOTS_def)
    next
      case False
      define s' where "s' = s\<lparr>hp := ?h\<lparr>nxt := (nxt ?h)(y := 0)\<rparr>, top' := top' s + 1,
          stack := (stack s)(nat (top' s) := x, nat (top' s + 1) := z)\<rparr>"
      have u: "split_loop s = split_loop s'"
        using t x f z False
        by (subst split_loop.simps) (simp add: Let_def push_def STACK_SLOTS_def s'_def)
      have "split_loop s' = Some (Inl StackOutOfBounds)"
      proof (rule less.hyps [of rest s' z])
        show "length rest < length as" by (simp add: as)
        show "sll (hp s') z rest" using rz d by (simp add: s'_def sll_frame)
        show "distinct rest" by (rule d)
        show "pairs (val (hp s')) rest" using pr by (simp add: s'_def)
        show "0 \<le> top' s'" "top' s' < 1000" using t False by (simp_all add: s'_def)
        show "stack s' (nat (top' s')) = z" by (simp add: s'_def)
        show "1000 \<le> top' s' + int (length rest div 2)"
          using less.prems(7) by (simp add: s'_def as)
      qed
      then show ?thesis using u by simp
    qed
  qed
qed

lemma fill_queue:
  "queue h head as \<Longrightarrow> a \<noteq> 0 \<Longrightarrow> \<forall>b\<ge>a. b \<notin> alloc h \<Longrightarrow>
   \<exists>bs. queue (fill head a ss h) head (as @ bs) \<and>
        map (val (fill head a ss h)) (as @ bs) = map (val h) as @ ss"
proof (induction ss arbitrary: h a as)
  case Nil
  then show ?case by (intro exI [of _ "[]"]) simp
next
  case (Cons s ss)
  have f: "a \<notin> alloc h" "a + 1 \<notin> alloc h" "a \<noteq> a + 1" "a \<noteq> 0" "a + 1 \<noteq> 0"
    using Cons.prems(2,3) by simp_all
  from q_insert_tail_queue [OF Cons.prems(1) f, of s] obtain h1 where
    h1: "q_insert_tail head s a (a + 1) h = (True, h1)" "queue h1 head (as @ [a])"
      "map (val h1) (as @ [a]) = map (val h) as @ [s]"
      "alloc h1 = insert a (insert (a + 1) (alloc h))"
    by blast
  have "\<forall>b\<ge>a + 2. b \<notin> alloc h1" using Cons.prems(3) by (simp add: h1(4))
  from Cons.IH [OF h1(2) _ this] obtain bs where
    "queue (fill head (a + 2) ss h1) head ((as @ [a]) @ bs)"
    "map (val (fill head (a + 2) ss h1)) ((as @ [a]) @ bs) = map (val h1) (as @ [a]) @ ss"
    by auto
  then show ?case using h1 by (intro exI [of _ "a # bs"]) simp
qed

lemma queue_of_queue:
  "\<exists>as. queue (queue_of ss) 1 as \<and> map (val (queue_of ss)) as = ss"
proof -
  let ?h = "INIT_LIST_HEAD 1 (malloc 1 heap0)"
  have n: "q_new 1 heap0 = (1, ?h)" and q: "queue ?h 1 []"
    using q_new_queue [of 1 heap0] by simp_all
  have "\<forall>b\<ge>2. b \<notin> alloc ?h" by (simp add: INIT_LIST_HEAD_def malloc_def heap0_def)
  moreover have "snd (q_new 1 heap0) = ?h" by (simp only: n snd_conv)
  ultimately show ?thesis
    unfolding queue_of_def using fill_queue [OF q, of 2 ss] by simp
qed

lemma path_sll:
  "successively (\<lambda>a b. nxt h a = b) (x # xs @ [e]) \<Longrightarrow> distinct (x # xs) \<Longrightarrow>
   0 \<notin> set (x # xs) \<Longrightarrow> sll (h\<lparr>nxt := (nxt h)(last (x # xs) := 0)\<rparr>) x (x # xs)"
proof (induction xs arbitrary: x)
  case Nil
  then show ?case by simp
next
  case (Cons y ys)
  define l where "l = last (y # ys)"
  define h' where "h' = h\<lparr>nxt := (nxt h)(l := 0)\<rparr>"
  have "sll h' y (y # ys)"
    unfolding h'_def l_def using Cons.prems by (intro Cons.IH) auto
  moreover have "x \<noteq> l" unfolding l_def using Cons.prems(2) last_in_set [of "y # ys"] by auto
  moreover have "nxt h x = y" "x \<noteq> 0" using Cons.prems by auto
  ultimately have "sll h' x (x # y # ys)" by (simp add: h'_def)
  moreover have "last (x # y # ys) = l" by (simp add: l_def)
  ultimately show ?case by (simp only: h'_def)
qed

lemma dll_cut_sll:
  assumes d: "dll h head as" and ne: "as \<noteq> []" and z: "0 \<notin> set as"
  shows "sll (h\<lparr>nxt := (nxt h)(prv h head := 0)\<rparr>) (nxt h head) as"
    and "nxt (h\<lparr>nxt := (nxt h)(prv h head := 0)\<rparr>) head = nxt h head"
proof -
  have p: "prv h head = last as" "nxt h head = hd as"
    using dll_prv_head [OF d] dll_nxt_head [OF d] ne by simp_all
  note s = dll_segments [OF d ne]
  have "links h (as @ [head])" using d links_appendD [of h "[head]" "as @ [head]"] by (simp add: dll_def)
  then have "successively (\<lambda>a b. nxt h a = b) (as @ [head])" by (rule links_next)
  moreover obtain x xs where as: "as = x # xs" using ne by (cases as) auto
  ultimately show "sll (h\<lparr>nxt := (nxt h)(prv h head := 0)\<rparr>) (nxt h head) as"
    unfolding p using s(4) z path_sll [of h x xs head] by simp
  have "last as \<noteq> head" using s(5) ne last_in_set [of as] by auto
  then show "nxt (h\<lparr>nxt := (nxt h)(prv h head := 0)\<rparr>) head = nxt h head"
    by (simp add: p)
qed

lemma pairs_pattern:
  "map f as = concat (replicate (Suc n) [''a'', ''a'', ''b'', ''b'']) \<Longrightarrow> pairs f as"
proof (induction n arbitrary: as)
  case 0
  then obtain w x y z where "as = [w, x, y, z]" "f w = ''a''" "f x = ''a''" "f y = ''b''" "f z = ''b''"
    by (auto simp: map_eq_Cons_conv)
  then show ?case by simp
next
  case (Suc n)
  then obtain w x y z rest where as: "as = w # x # y # z # rest"
    and v: "f w = ''a''" "f x = ''a''" "f y = ''b''" "f z = ''b''"
    and r: "map f rest = concat (replicate (Suc n) [''a'', ''a'', ''b'', ''b''])"
    by (auto simp: map_eq_Cons_conv)
  have "pairs f rest" using Suc.IH [OF r] .
  moreover from r obtain u rest' where "rest = u # rest'" "f u = ''a''"
    by (auto simp: map_eq_Cons_conv)
  ultimately show ?case using as v by simp
qed

lemma q_sort_pairs_overflow:
  assumes "500 \<le> n"
  shows "q_sort 1 (queue_of (concat (replicate n [''a'', ''a'', ''b'', ''b'']))) =
         Some (Inl StackOutOfBounds)"
proof -
  let ?ss = "concat (replicate n [''a'', ''a'', ''b'', ''b''])"
  let ?h = "queue_of ?ss"
  from queue_of_queue [of ?ss] obtain as where q: "queue ?h 1 as" and v: "map (val ?h) as = ?ss"
    by blast
  have len: "length as = 4 * n"
    using arg_cong [OF v, of length] by (simp add: length_concat sum_list_replicate)
  obtain m where n: "n = Suc m" using assms by (cases n) auto
  have d: "dll ?h 1 as" and z: "0 \<notin> set as" using q by (auto simp: queue_def blocks_def)
  obtain p r rest where as: "as = p # r # rest"
    using len n by (cases as; cases "tl as") auto
  note ns = dll_not_singular [OF d [unfolded as]]
  have dis: "distinct as" using d by (simp add: dll_def)
  let ?h1 = "?h\<lparr>nxt := (nxt ?h)(prv ?h 1 := 0)\<rparr>"
  let ?s = "\<lparr>top' = 0, listsSize = 0, stack = (\<lambda>_. 0)(0 := nxt ?h1 1), lists' = (\<lambda>_. 0), hp = ?h1\<rparr>"
  note c = dll_cut_sll [OF d _ z]
  have "split_loop ?s = Some (Inl StackOutOfBounds)"
  proof (rule split_loop_overflow [of _ "nxt ?h 1" as])
    show "sll (hp ?s) (nxt ?h 1) as" using c(1) as by simp
    show "distinct as" by (rule dis)
    show "pairs (val (hp ?s)) as" using pairs_pattern [of "val ?h" as m] v n by simp
    show "stack ?s (nat (top' ?s)) = nxt ?h 1" using c(2) as by simp
    show "1000 \<le> top' ?s + int (length as div 2)" using assms len by simp
  qed simp_all
  then show ?thesis
    using ns by (simp add: q_sort_def list_mergesort_def Let_def)
qed

text \<open>C6. The specification has every write of the sort to its work stack within bounds,
  for a list of any length. On the 2000 elements a, a, b, b, a, a, b, b, ... each pass
  of the split loop cuts one pair of equal values off the front and pushes the pair and
  the rest, so \<^verbatim>\<open>top\<close> grows by one with each pass; the push of the rest in the 1000th
  pass is a write to the slot 1000 of the 1000 slots.\<close>

theorem list_mergesort_stack_overflow:
  "q_sort 1 (queue_of (concat (replicate 500 [''a'', ''a'', ''b'', ''b'']))) =
   Some (Inl StackOutOfBounds)"
  by (rule q_sort_pairs_overflow) simp

section \<open>The other transforms\<close>








lemma q_sort_small:
  "q_sort 0 h = Some (Inr h)" "dll h head [] \<Longrightarrow> q_sort head h = Some (Inr h)"
  "dll h head [a] \<Longrightarrow> q_sort head h = Some (Inr h)"
  by (auto simp: q_sort_def list_mergesort_def dll_def list_empty_def list_is_singular_def)

section \<open>Every operation returns a circular list\<close>



























end
